theory Spec2Isabelle
  imports Main "HOL-Library.Word"
begin

unbundle bit_operations_syntax

section \<open>The clause bank of the Convolutional Tsetlin Machine (ClauseBank.c)\<close>

text \<open>
  A shallow embedding of \<^verbatim>\<open>src/tmu/ClauseBank.c\<close>.

  \<^item> \<^verbatim>\<open>unsigned int\<close> is a 32-bit word; \<^verbatim>\<open>&\<close>, \<^verbatim>\<open>|\<close>, \<^verbatim>\<open>^\<close>, \<^verbatim>\<open>~\<close> are
    \<open>AND\<close>, \<open>OR\<close>, \<open>XOR\<close>, \<open>NOT\<close>.
  \<^item> An \<^verbatim>\<open>unsigned int *\<close> argument is a store: a total map from word index to word.
    The C functions receive bare pointers and never test a bound; the caller owes
    buffers of the declared lengths. A pointer into an array, such as
    \<^verbatim>\<open>&ta_state[clause_pos + ta_pos]\<close>, is the store together with the offset.
  \<^item> Array indices and loop counters are natural numbers (sizes are far below
    \<open>2^31\<close>, so index arithmetic does not wrap). The position
    \<^verbatim>\<open>k*number_of_state_bits + number_of_state_bits-1\<close> presumes at least one state bit.
  \<^item> A \<^verbatim>\<open>for\<close> loop over \<open>0 .. n-1\<close> is a recursion over the index list
    \<open>[0..<n]\<close>; a \<^verbatim>\<open>break\<close> ends the recursion.
\<close>

type_synonym u32 = "32 word"
type_synonym store = "nat \<Rightarrow> u32"

subsection \<open>Bit-sliced saturating counters: \<^verbatim>\<open>cb_inc\<close> and \<^verbatim>\<open>cb_dec\<close>\<close>

text \<open>
  The first loop of \<^verbatim>\<open>cb_inc\<close> (lines 60-68): the carry ripples through the bit planes
  \<open>b = 0 .. number_of_state_bits-1\<close> of the stripe that starts at \<open>base\<close>, and the loop
  is left as soon as the carry word is zero. The result is the updated store and the
  carry that is left over.
\<close>

fun inc_carry :: "nat list \<Rightarrow> nat \<Rightarrow> store \<Rightarrow> u32 \<Rightarrow> store \<times> u32" where
  "inc_carry [] base ta carry = (ta, carry)"
| "inc_carry (b # bs) base ta carry =
     (if carry = 0 then (ta, carry)
      else let carry_next = ta (base + b) AND carry
           in inc_carry bs base (ta(base + b := ta (base + b) XOR carry)) carry_next)"

text \<open>
  \<^verbatim>\<open>cb_inc\<close> (lines 56-75): after the ripple, lanes whose carry is still set had all
  planes at one; the second loop sets every plane of these lanes again.
\<close>

definition cb_inc :: "store \<Rightarrow> nat \<Rightarrow> u32 \<Rightarrow> nat \<Rightarrow> store" where
  "cb_inc ta base active nsb =
     (case inc_carry [0..<nsb] base ta active of (ta1, carry) \<Rightarrow>
        if carry > 0 then fold (\<lambda>b t. t(base + b := t (base + b) OR carry)) [0..<nsb] ta1
        else ta1)"

text \<open>
  \<^verbatim>\<open>cb_dec\<close> (lines 78-97): the same shape with the borrow
  \<^verbatim>\<open>(~ta_state[b]) & carry\<close> and the clamp \<^verbatim>\<open>ta_state[b] &= ~carry\<close>.
\<close>

fun dec_carry :: "nat list \<Rightarrow> nat \<Rightarrow> store \<Rightarrow> u32 \<Rightarrow> store \<times> u32" where
  "dec_carry [] base ta carry = (ta, carry)"
| "dec_carry (b # bs) base ta carry =
     (if carry = 0 then (ta, carry)
      else let carry_next = NOT (ta (base + b)) AND carry
           in dec_carry bs base (ta(base + b := ta (base + b) XOR carry)) carry_next)"

definition cb_dec :: "store \<Rightarrow> nat \<Rightarrow> u32 \<Rightarrow> nat \<Rightarrow> store" where
  "cb_dec ta base active nsb =
     (case dec_carry [0..<nsb] base ta active of (ta1, carry) \<Rightarrow>
        if carry > 0 then fold (\<lambda>b t. t(base + b := t (base + b) AND NOT carry)) [0..<nsb] ta1
        else ta1)"

text \<open>
  Reading a stripe as 32 counters: the value of lane \<open>i\<close> over \<open>n\<close> bit planes starting
  at word \<open>pos\<close>, least significant plane first.
\<close>

primrec planes_val :: "nat \<Rightarrow> store \<Rightarrow> nat \<Rightarrow> nat \<Rightarrow> nat" where
  "planes_val 0 ta pos i = 0"
| "planes_val (Suc n) ta pos i = (if bit (ta pos) i then 1 else 0) + 2 * planes_val n ta (Suc pos) i"

definition counter :: "store \<Rightarrow> nat \<Rightarrow> nat \<Rightarrow> nat \<Rightarrow> nat" where
  "counter ta base nsb i = planes_val nsb ta base i"

text \<open>A sequence of \<^verbatim>\<open>cb_inc\<close> / \<^verbatim>\<open>cb_dec\<close> calls on one stripe, each with its own mask.\<close>

datatype counter_op = Inc u32 | Dec u32

fun run_ops :: "counter_op list \<Rightarrow> store \<Rightarrow> nat \<Rightarrow> nat \<Rightarrow> store" where
  "run_ops [] ta base nsb = ta"
| "run_ops (Inc m # ops) ta base nsb = run_ops ops (cb_inc ta base m nsb) base nsb"
| "run_ops (Dec m # ops) ta base nsb = run_ops ops (cb_dec ta base m nsb) base nsb"

subsection \<open>Pointers, the tail filter and the chunk count\<close>

text \<open>C's logical negation \<^verbatim>\<open>!\<close> on an \<^verbatim>\<open>unsigned int\<close>: 1 for zero, 0 for every other word.\<close>

definition lnot32 :: "u32 \<Rightarrow> u32" where
  "lnot32 w = (if w = 0 then 1 else 0)"

text \<open>The pointer \<^verbatim>\<open>&m[p]\<close> as a read-only view of the store \<open>m\<close>.\<close>

definition at_offset :: "store \<Rightarrow> nat \<Rightarrow> store" where
  "at_offset m p = (\<lambda>a. m (p + a))"

text \<open>
  The prologue that every public function repeats (for example lines 432-438):
  \<^verbatim>\<open>filter\<close> and \<^verbatim>\<open>number_of_ta_chunks\<close>. For \<open>number_of_features = 0\<close> C's truncating
  division gives \<^verbatim>\<open>(0-1)/32 + 1 = 1\<close>, as the natural-number expression does.
\<close>

definition tail_filter :: "nat \<Rightarrow> u32" where
  "tail_filter number_of_features =
     (if number_of_features mod 32 \<noteq> 0
      then NOT (push_bit (number_of_features mod 32) 0xffffffff)
      else 0xffffffff)"

definition ta_chunks :: "nat \<Rightarrow> nat" where
  "ta_chunks number_of_features = (number_of_features - 1) div 32 + 1"

subsection \<open>The random number generator\<close>

text \<open>
  Modelled from the spec: \<^verbatim>\<open>fast_rand.h\<close> (\<^verbatim>\<open>fast_rand\<close>, \<^verbatim>\<open>normal\<close>, \<^verbatim>\<open>FAST_RAND_MAX\<close>) is
  not among the sources. The spec asks for a generator of uniform 32-bit words and of
  normal draws, threaded as an explicit generator object. The object here is the
  sequence of words that successive \<^verbatim>\<open>fast_rand()\<close> calls return together with the number
  of calls made so far, and likewise the sequence of (integer-truncated) values that
  successive \<^verbatim>\<open>normal(...)\<close> calls return. \<open>used\<close> counts the \<^verbatim>\<open>fast_rand()\<close> calls that
  ClauseBank.c itself makes.
\<close>

record prng =
  draws :: "nat \<Rightarrow> u32"
  used :: nat
  normals :: "nat \<Rightarrow> int"
  normals_used :: nat

definition fast_rand :: "prng \<Rightarrow> u32 \<times> prng" where
  "fast_rand g = (draws g (used g), g\<lparr>used := Suc (used g)\<rparr>)"

definition normal :: "prng \<Rightarrow> int \<times> prng" where
  "normal g = (normals g (normals_used g), g\<lparr>normals_used := Suc (normals_used g)\<rparr>)"

subsection \<open>Clause evaluation\<close>

text \<open>
  The per-patch test of \<^verbatim>\<open>cb_calculate_clause_output_feedback\<close> (lines 104-117) and of
  \<^verbatim>\<open>cb_calculate_clause_output_update\<close> (lines 193-206), which are the same text. \<open>ta\<close> is
  the pointer to the clause's first word. The loop over the non-tail chunks leaves with
  \<^verbatim>\<open>output = 0\<close> at the first chunk that fails; the literal mask enters as
  \<^verbatim>\<open>!literal_active[k]\<close>.
\<close>

fun masked_chunks :: "store \<Rightarrow> nat \<Rightarrow> nat \<Rightarrow> store \<Rightarrow> store \<Rightarrow> nat \<Rightarrow> nat list \<Rightarrow> bool" where
  "masked_chunks ta K nsb L Xi patch [] = True"
| "masked_chunks ta K nsb L Xi patch (k # ks) =
     (let pos = k * nsb + nsb - 1 in
      if ta pos AND (Xi (patch * K + k) OR lnot32 (L k)) = ta pos
      then masked_chunks ta K nsb L Xi patch ks
      else False)"

definition masked_patch_output :: "store \<Rightarrow> nat \<Rightarrow> nat \<Rightarrow> u32 \<Rightarrow> store \<Rightarrow> store \<Rightarrow> nat \<Rightarrow> bool" where
  "masked_patch_output ta K nsb fltr L Xi patch =
     (masked_chunks ta K nsb L Xi patch [0..<K - 1] \<and>
      (let pos = (K - 1) * nsb + nsb - 1 in
       ta pos AND (Xi (patch * K + K - 1) OR lnot32 (L (K - 1))) AND fltr = ta pos AND fltr))"

text \<open>
  \<^verbatim>\<open>cb_calculate_clause_output_feedback\<close> (lines 100-133). The scratch buffer
  \<^verbatim>\<open>output_one_patches\<close> is the list of its first \<^verbatim>\<open>output_one_patches_count\<close> cells. The
  result \<open>Some patch\<close> stands for \<^verbatim>\<open>*clause_output = 1\<close> with \<^verbatim>\<open>*clause_patch = patch\<close>,
  \<open>None\<close> for \<^verbatim>\<open>*clause_output = 0\<close> (\<^verbatim>\<open>*clause_patch\<close> is then not written).
\<close>

fun feedback_patches :: "store \<Rightarrow> nat \<Rightarrow> nat \<Rightarrow> u32 \<Rightarrow> store \<Rightarrow> store \<Rightarrow> nat list \<Rightarrow> nat list \<Rightarrow> nat list" where
  "feedback_patches ta K nsb fltr L Xi [] output_one_patches = output_one_patches"
| "feedback_patches ta K nsb fltr L Xi (patch # ps) output_one_patches =
     feedback_patches ta K nsb fltr L Xi ps
       (if masked_patch_output ta K nsb fltr L Xi patch
        then output_one_patches @ [patch] else output_one_patches)"

definition cb_calculate_clause_output_feedback ::
  "store \<Rightarrow> nat \<Rightarrow> nat \<Rightarrow> u32 \<Rightarrow> nat \<Rightarrow> store \<Rightarrow> store \<Rightarrow> prng \<Rightarrow> nat option \<times> prng" where
  "cb_calculate_clause_output_feedback ta K nsb fltr P L Xi g =
     (let output_one_patches = feedback_patches ta K nsb fltr L Xi [0..<P] [] in
      if length output_one_patches > 0
      then (case fast_rand g of (r, g') \<Rightarrow>
              (Some (output_one_patches ! (unat r mod length output_one_patches)), g'))
      else (None, g))"

text \<open>\<^verbatim>\<open>cb_calculate_clause_output_update\<close> (lines 190-214).\<close>

fun update_patches :: "store \<Rightarrow> nat \<Rightarrow> nat \<Rightarrow> u32 \<Rightarrow> store \<Rightarrow> store \<Rightarrow> nat list \<Rightarrow> u32" where
  "update_patches ta K nsb fltr L Xi [] = 0"
| "update_patches ta K nsb fltr L Xi (patch # ps) =
     (if masked_patch_output ta K nsb fltr L Xi patch then 1
      else update_patches ta K nsb fltr L Xi ps)"

definition cb_calculate_clause_output_update ::
  "store \<Rightarrow> nat \<Rightarrow> nat \<Rightarrow> u32 \<Rightarrow> nat \<Rightarrow> store \<Rightarrow> store \<Rightarrow> u32" where
  "cb_calculate_clause_output_update ta K nsb fltr P L Xi = update_patches ta K nsb fltr L Xi [0..<P]"

text \<open>
  \<^verbatim>\<open>cb_calculate_clause_output_patchwise\<close> (lines 216-236): the per-patch test without
  the literal mask; \<^verbatim>\<open>output\<close> is the pointer \<^verbatim>\<open>&clause_output[j*number_of_patches]\<close>.
\<close>

fun plain_chunks :: "store \<Rightarrow> nat \<Rightarrow> nat \<Rightarrow> store \<Rightarrow> nat \<Rightarrow> nat list \<Rightarrow> bool" where
  "plain_chunks ta K nsb Xi patch [] = True"
| "plain_chunks ta K nsb Xi patch (k # ks) =
     (let pos = k * nsb + nsb - 1 in
      if ta pos AND Xi (patch * K + k) = ta pos
      then plain_chunks ta K nsb Xi patch ks
      else False)"

definition plain_patch_output :: "store \<Rightarrow> nat \<Rightarrow> nat \<Rightarrow> u32 \<Rightarrow> store \<Rightarrow> nat \<Rightarrow> bool" where
  "plain_patch_output ta K nsb fltr Xi patch =
     (plain_chunks ta K nsb Xi patch [0..<K - 1] \<and>
      (let pos = (K - 1) * nsb + nsb - 1 in
       ta pos AND Xi (patch * K + K - 1) AND fltr = ta pos AND fltr))"

definition cb_calculate_clause_output_patchwise ::
  "store \<Rightarrow> nat \<Rightarrow> nat \<Rightarrow> u32 \<Rightarrow> nat \<Rightarrow> store \<Rightarrow> nat \<Rightarrow> store \<Rightarrow> store" where
  "cb_calculate_clause_output_patchwise ta K nsb fltr P output out_base Xi =
     fold (\<lambda>patch out. out(out_base + patch := (if plain_patch_output ta K nsb fltr Xi patch then 1 else 0)))
       [0..<P] output"

text \<open>
  \<^verbatim>\<open>cb_calculate_clause_output_predict\<close> (lines 238-266). The chunk loop returns
  \<^verbatim>\<open>output\<close> and \<^verbatim>\<open>all_exclude\<close>; \<^verbatim>\<open>all_exclude\<close> is only updated for chunks that passed.
\<close>

fun predict_chunks :: "store \<Rightarrow> nat \<Rightarrow> nat \<Rightarrow> store \<Rightarrow> nat \<Rightarrow> nat list \<Rightarrow> bool \<Rightarrow> bool \<times> bool" where
  "predict_chunks ta K nsb Xi patch [] all_exclude = (True, all_exclude)"
| "predict_chunks ta K nsb Xi patch (k # ks) all_exclude =
     (let pos = k * nsb + nsb - 1 in
      if ta pos AND Xi (patch * K + k) = ta pos
      then predict_chunks ta K nsb Xi patch ks (all_exclude \<and> ta pos = 0)
      else (False, all_exclude))"

fun predict_patches :: "store \<Rightarrow> nat \<Rightarrow> nat \<Rightarrow> u32 \<Rightarrow> store \<Rightarrow> nat list \<Rightarrow> u32" where
  "predict_patches ta K nsb fltr Xi [] = 0"
| "predict_patches ta K nsb fltr Xi (patch # ps) =
     (case predict_chunks ta K nsb Xi patch [0..<K - 1] True of (output0, all_exclude0) \<Rightarrow>
        let pos = (K - 1) * nsb + nsb - 1;
            output = (output0 \<and> ta pos AND Xi (patch * K + K - 1) AND fltr = ta pos AND fltr);
            all_exclude = (all_exclude0 \<and> ta pos AND fltr = 0)
        in if output \<and> \<not> all_exclude then 1
           else predict_patches ta K nsb fltr Xi ps)"

definition cb_calculate_clause_output_predict ::
  "store \<Rightarrow> nat \<Rightarrow> nat \<Rightarrow> u32 \<Rightarrow> nat \<Rightarrow> store \<Rightarrow> u32" where
  "cb_calculate_clause_output_predict ta K nsb fltr P Xi = predict_patches ta K nsb fltr Xi [0..<P]"

text \<open>The public evaluation functions (lines 430-478): one clause after the other.\<close>

definition cb_calculate_clause_outputs_predict ::
  "store \<Rightarrow> nat \<Rightarrow> nat \<Rightarrow> nat \<Rightarrow> nat \<Rightarrow> store \<Rightarrow> store \<Rightarrow> store" where
  "cb_calculate_clause_outputs_predict ta_state number_of_clauses number_of_features number_of_state_bits
       number_of_patches clause_output Xi =
     (let fltr = tail_filter number_of_features;
          number_of_ta_chunks = ta_chunks number_of_features
      in fold (\<lambda>j out. let clause_pos = j * number_of_ta_chunks * number_of_state_bits in
                 out(j := cb_calculate_clause_output_predict (at_offset ta_state clause_pos)
                            number_of_ta_chunks number_of_state_bits fltr number_of_patches Xi))
           [0..<number_of_clauses] clause_output)"

definition cb_calculate_clause_outputs_update ::
  "store \<Rightarrow> nat \<Rightarrow> nat \<Rightarrow> nat \<Rightarrow> nat \<Rightarrow> store \<Rightarrow> store \<Rightarrow> store \<Rightarrow> store" where
  "cb_calculate_clause_outputs_update ta_state number_of_clauses number_of_features number_of_state_bits
       number_of_patches clause_output literal_active Xi =
     (let fltr = tail_filter number_of_features;
          number_of_ta_chunks = ta_chunks number_of_features
      in fold (\<lambda>j out. let clause_pos = j * number_of_ta_chunks * number_of_state_bits in
                 out(j := cb_calculate_clause_output_update (at_offset ta_state clause_pos)
                            number_of_ta_chunks number_of_state_bits fltr number_of_patches literal_active Xi))
           [0..<number_of_clauses] clause_output)"

definition cb_calculate_clause_outputs_patchwise ::
  "store \<Rightarrow> nat \<Rightarrow> nat \<Rightarrow> nat \<Rightarrow> nat \<Rightarrow> store \<Rightarrow> store \<Rightarrow> store" where
  "cb_calculate_clause_outputs_patchwise ta_state number_of_clauses number_of_features number_of_state_bits
       number_of_patches clause_output Xi =
     (let fltr = tail_filter number_of_features;
          number_of_ta_chunks = ta_chunks number_of_features
      in fold (\<lambda>j out. let clause_pos = j * number_of_ta_chunks * number_of_state_bits in
                 cb_calculate_clause_output_patchwise (at_offset ta_state clause_pos)
                   number_of_ta_chunks number_of_state_bits fltr number_of_patches out (j * number_of_patches) Xi)
           [0..<number_of_clauses] clause_output)"

text \<open>
  Two notions used to state properties. \<open>all_exclude_clause\<close>: every action word of the
  clause is zero, the tail word under the filter. \<open>action_bit ta nsb i\<close>: the action bit of
  literal \<open>i\<close> of the clause at \<open>ta\<close>, addressed as \<^verbatim>\<open>cb_calculate_literal_frequency\<close> does
  (lines 490-493).
\<close>

definition all_exclude_clause :: "store \<Rightarrow> nat \<Rightarrow> nat \<Rightarrow> u32 \<Rightarrow> bool" where
  "all_exclude_clause ta K nsb fltr \<longleftrightarrow>
     (\<forall>k\<in>set [0..<K - 1]. ta (k * nsb + nsb - 1) = 0) \<and> ta ((K - 1) * nsb + nsb - 1) AND fltr = 0"

definition action_bit :: "store \<Rightarrow> nat \<Rightarrow> nat \<Rightarrow> bool" where
  "action_bit ta nsb i = bit (ta ((i div 32) * nsb + nsb - 1)) (i mod 32)"

subsection \<open>The random feedback mask: \<^verbatim>\<open>cb_initialize_random_streams\<close>\<close>

text \<open>
  The rejection loop of lines 48-50: draw again while the bit of feature \<open>f\<close> is already
  set. With an arbitrary draw sequence the loop need not end; not returning is \<open>None\<close>.
\<close>

partial_function (option) resample :: "store \<Rightarrow> nat \<Rightarrow> nat \<Rightarrow> prng \<Rightarrow> (nat \<times> prng) option" where
  "resample feedback_to_ta number_of_features f g =
     (if feedback_to_ta (f div 32) AND push_bit (f mod 32) 1 \<noteq> 0
      then resample feedback_to_ta number_of_features
             (unat (fst (fast_rand g)) mod number_of_features) (snd (fast_rand g))
      else Some (f, g))"

declare resample.simps [code]

text \<open>The loop \<^verbatim>\<open>while (active--)\<close> of lines 46-52, for a count that is already clamped.\<close>

fun random_bits :: "nat \<Rightarrow> nat \<Rightarrow> store \<Rightarrow> prng \<Rightarrow> (store \<times> prng) option" where
  "random_bits 0 number_of_features feedback_to_ta g = Some (feedback_to_ta, g)"
| "random_bits (Suc active) number_of_features feedback_to_ta g =
     (case fast_rand g of (r, g1) \<Rightarrow>
        (case resample feedback_to_ta number_of_features (unat r mod number_of_features) g1 of
           None \<Rightarrow> None
         | Some (f, g2) \<Rightarrow>
             random_bits active number_of_features
               (feedback_to_ta(f div 32 := feedback_to_ta (f div 32) OR push_bit (f mod 32) 1)) g2))"

text \<open>
  \<^verbatim>\<open>cb_initialize_random_streams\<close> (lines 35-53): clear the \<^verbatim>\<open>number_of_ta_chunks\<close> words,
  draw \<^verbatim>\<open>active\<close>, clamp it to \<open>[0, number_of_features]\<close>, set that many distinct bits. The
  floating-point arguments of \<^verbatim>\<open>normal\<close> (computed from \<^verbatim>\<open>s\<close>) are part of the generator's
  sequence of normal draws.
\<close>

definition cb_initialize_random_streams :: "store \<Rightarrow> nat \<Rightarrow> nat \<Rightarrow> prng \<Rightarrow> (store \<times> prng) option" where
  "cb_initialize_random_streams feedback_to_ta number_of_features number_of_ta_chunks g =
     (let zeroed = (\<lambda>k. if k < number_of_ta_chunks then 0 else feedback_to_ta k);
          n = int number_of_features
      in case normal g of (a, g1) \<Rightarrow>
           let active = (if a \<ge> n then n else a);
               active = (if active < 0 then 0 else active)
           in random_bits (nat active) number_of_features zeroed g1)"

subsection \<open>Type I feedback\<close>

text \<open>
  The floating-point test \<^verbatim>\<open>((float)fast_rand())/((float)FAST_RAND_MAX) > update_p\<close> is the
  predicate \<open>exceeds_update_p\<close> on the drawn word, a parameter of the model. The bodies of
  the chunk loops of lines 295-305 (Type Ia) and 309-313 (Type Ib):
\<close>

definition type_ia_chunk :: "nat \<Rightarrow> nat \<Rightarrow> nat \<Rightarrow> u32 \<Rightarrow> store \<Rightarrow> store \<Rightarrow> store \<Rightarrow> nat \<Rightarrow> nat \<Rightarrow> store \<Rightarrow> store" where
  "type_ia_chunk clause_pos K nsb boost_true_positive_feedback feedback_to_ta L Xi clause_patch k ta_state =
     (let ta_pos = k * nsb;
          ta1 = (if boost_true_positive_feedback = 1
                 then cb_inc ta_state (clause_pos + ta_pos) (L k AND Xi (clause_patch * K + k)) nsb
                 else cb_inc ta_state (clause_pos + ta_pos)
                        (L k AND Xi (clause_patch * K + k) AND NOT (feedback_to_ta k)) nsb)
      in cb_dec ta1 (clause_pos + ta_pos) (L k AND NOT (Xi (clause_patch * K + k)) AND feedback_to_ta k) nsb)"

definition type_ib_chunk :: "nat \<Rightarrow> nat \<Rightarrow> store \<Rightarrow> store \<Rightarrow> nat \<Rightarrow> store \<Rightarrow> store" where
  "type_ib_chunk clause_pos nsb feedback_to_ta L k ta_state =
     (let ta_pos = k * nsb
      in cb_dec ta_state (clause_pos + ta_pos) (L k AND feedback_to_ta k) nsb)"

text \<open>
  One iteration of the clause loop of \<^verbatim>\<open>cb_type_i_feedback\<close> (lines 279-315) on the state
  (\<^verbatim>\<open>ta_state\<close>, \<^verbatim>\<open>feedback_to_ta\<close>, generator). The draw for the \<^verbatim>\<open>update_p\<close> test comes
  first; \<^verbatim>\<open>||\<close> looks at \<^verbatim>\<open>clause_active[j]\<close> only afterwards.
\<close>

definition type_i_clause ::
  "nat \<Rightarrow> nat \<Rightarrow> nat \<Rightarrow> (u32 \<Rightarrow> bool) \<Rightarrow> u32 \<Rightarrow> store \<Rightarrow> store \<Rightarrow> store \<Rightarrow> nat
     \<Rightarrow> store \<times> store \<times> prng \<Rightarrow> (store \<times> store \<times> prng) option" where
  "type_i_clause number_of_features nsb number_of_patches exceeds_update_p boost_true_positive_feedback
       clause_active L Xi j s =
     (case s of (ta_state, feedback_to_ta, g) \<Rightarrow>
      let fltr = tail_filter number_of_features;
          K = ta_chunks number_of_features
      in case fast_rand g of (u, g1) \<Rightarrow>
         if exceeds_update_p u \<or> clause_active j = 0 then Some (ta_state, feedback_to_ta, g1)
         else
           let clause_pos = j * K * nsb
           in case cb_calculate_clause_output_feedback (at_offset ta_state clause_pos) K nsb fltr
                     number_of_patches L Xi g1 of (clause_output, g2) \<Rightarrow>
              (case cb_initialize_random_streams feedback_to_ta number_of_features K g2 of
                 None \<Rightarrow> None
               | Some (fb, g3) \<Rightarrow>
                   (case clause_output of
                      Some clause_patch \<Rightarrow>
                        Some (fold (type_ia_chunk clause_pos K nsb boost_true_positive_feedback fb L Xi clause_patch)
                                [0..<K] ta_state, fb, g3)
                    | None \<Rightarrow>
                        Some (fold (type_ib_chunk clause_pos nsb fb L) [0..<K] ta_state, fb, g3))))"

fun type_i_clauses ::
  "nat \<Rightarrow> nat \<Rightarrow> nat \<Rightarrow> (u32 \<Rightarrow> bool) \<Rightarrow> u32 \<Rightarrow> store \<Rightarrow> store \<Rightarrow> store \<Rightarrow> nat list
     \<Rightarrow> store \<times> store \<times> prng \<Rightarrow> (store \<times> store \<times> prng) option" where
  "type_i_clauses F nsb P exceeds_update_p boost clause_active L Xi [] s = Some s"
| "type_i_clauses F nsb P exceeds_update_p boost clause_active L Xi (j # js) s =
     (case type_i_clause F nsb P exceeds_update_p boost clause_active L Xi j s of
        None \<Rightarrow> None
      | Some s' \<Rightarrow> type_i_clauses F nsb P exceeds_update_p boost clause_active L Xi js s')"

definition cb_type_i_feedback ::
  "store \<Rightarrow> store \<Rightarrow> nat \<Rightarrow> nat \<Rightarrow> nat \<Rightarrow> nat \<Rightarrow> (u32 \<Rightarrow> bool) \<Rightarrow> u32 \<Rightarrow> store \<Rightarrow> store \<Rightarrow> store \<Rightarrow> prng
     \<Rightarrow> (store \<times> store \<times> prng) option" where
  "cb_type_i_feedback ta_state feedback_to_ta number_of_clauses number_of_features number_of_state_bits
       number_of_patches exceeds_update_p boost_true_positive_feedback clause_active literal_active Xi g =
     type_i_clauses number_of_features number_of_state_bits number_of_patches exceeds_update_p
       boost_true_positive_feedback clause_active literal_active Xi [0..<number_of_clauses]
       (ta_state, feedback_to_ta, g)"

subsection \<open>Type II feedback\<close>

text \<open>The body of the chunk loop (lines 340-343), one clause iteration, and \<^verbatim>\<open>cb_type_ii_feedback\<close> (lines 318-346).\<close>

definition type_ii_chunk :: "nat \<Rightarrow> nat \<Rightarrow> nat \<Rightarrow> store \<Rightarrow> store \<Rightarrow> nat \<Rightarrow> nat \<Rightarrow> store \<Rightarrow> store" where
  "type_ii_chunk clause_pos K nsb L Xi clause_patch k ta_state =
     (let ta_pos = k * nsb
      in cb_inc ta_state (clause_pos + ta_pos)
           (L k AND NOT (Xi (clause_patch * K + k)) AND NOT (ta_state (clause_pos + ta_pos + nsb - 1))) nsb)"

definition type_ii_clause ::
  "nat \<Rightarrow> nat \<Rightarrow> nat \<Rightarrow> (u32 \<Rightarrow> bool) \<Rightarrow> store \<Rightarrow> store \<Rightarrow> store \<Rightarrow> nat \<Rightarrow> store \<times> prng \<Rightarrow> store \<times> prng" where
  "type_ii_clause number_of_features nsb number_of_patches exceeds_update_p clause_active L Xi j s =
     (case s of (ta_state, g) \<Rightarrow>
      let fltr = tail_filter number_of_features;
          K = ta_chunks number_of_features
      in case fast_rand g of (u, g1) \<Rightarrow>
         if exceeds_update_p u \<or> clause_active j = 0 then (ta_state, g1)
         else
           let clause_pos = j * K * nsb
           in case cb_calculate_clause_output_feedback (at_offset ta_state clause_pos) K nsb fltr
                     number_of_patches L Xi g1 of (clause_output, g2) \<Rightarrow>
              (case clause_output of
                 Some clause_patch \<Rightarrow> (fold (type_ii_chunk clause_pos K nsb L Xi clause_patch) [0..<K] ta_state, g2)
               | None \<Rightarrow> (ta_state, g2)))"

definition cb_type_ii_feedback ::
  "store \<Rightarrow> nat \<Rightarrow> nat \<Rightarrow> nat \<Rightarrow> nat \<Rightarrow> (u32 \<Rightarrow> bool) \<Rightarrow> store \<Rightarrow> store \<Rightarrow> store \<Rightarrow> prng \<Rightarrow> store \<times> prng" where
  "cb_type_ii_feedback ta_state number_of_clauses number_of_features number_of_state_bits number_of_patches
       exceeds_update_p clause_active literal_active Xi g =
     fold (type_ii_clause number_of_features number_of_state_bits number_of_patches exceeds_update_p
             clause_active literal_active Xi)
       [0..<number_of_clauses] (ta_state, g)"

subsection \<open>The single-offending-literal search\<close>

text \<open>
  \<^verbatim>\<open>offending_literal_id = log2(offending_literals)\<close>: the double-precision logarithm of a
  nonzero 32-bit value, truncated to \<^verbatim>\<open>int\<close>. It is only evaluated on words with exactly
  one bit set, where it is exact.
\<close>

fun floor_log2 :: "nat \<Rightarrow> nat" where
  "floor_log2 n = (if n < 2 then 0 else Suc (floor_log2 (n div 2)))"

declare floor_log2.simps [simp del]

definition log2_u32 :: "u32 \<Rightarrow> nat" where
  "log2_u32 w = floor_log2 (unat w)"

text \<open>
  \<^verbatim>\<open>cb_calculate_clause_output_single_false_literal\<close> (lines 136-188). The chunk loop
  (lines 144-159) works on \<^verbatim>\<open>max_one_offending_literal\<close>, \<^verbatim>\<open>already_one_offending_literal\<close>
  and \<^verbatim>\<open>offending_literal_id\<close>; each \<^verbatim>\<open>break\<close> leaves the chunk loop.
\<close>

fun offending_chunks ::
  "store \<Rightarrow> nat \<Rightarrow> nat \<Rightarrow> store \<Rightarrow> store \<Rightarrow> nat \<Rightarrow> nat list \<Rightarrow> bool \<times> bool \<times> nat \<Rightarrow> bool \<times> bool \<times> nat" where
  "offending_chunks ta K nsb L Xi patch [] st = st"
| "offending_chunks ta K nsb L Xi patch (k # ks) st =
     (case st of (max_one_offending_literal, already_one_offending_literal, offending_literal_id) \<Rightarrow>
      let pos = k * nsb + nsb - 1;
          offending_literals = (ta pos AND (Xi (patch * K + k) OR NOT (L k))) XOR ta pos
      in if offending_literals AND (offending_literals - 1) > 0
         then (False, already_one_offending_literal, offending_literal_id)
         else if offending_literals \<noteq> 0
         then (if \<not> already_one_offending_literal
               then offending_chunks ta K nsb L Xi patch ks
                      (max_one_offending_literal, True, log2_u32 offending_literals)
               else (False, already_one_offending_literal, offending_literal_id))
         else offending_chunks ta K nsb L Xi patch ks st)"

text \<open>
  The patch loop (lines 140-180). \<^verbatim>\<open>offending_literal_id\<close> is declared outside the loop and
  carried from patch to patch. In the tail-chunk part (lines 161-174) each \<^verbatim>\<open>break\<close> leaves
  the patch loop: the scan ends with the candidates collected so far.
\<close>

fun offending_patches ::
  "store \<Rightarrow> nat \<Rightarrow> nat \<Rightarrow> u32 \<Rightarrow> store \<Rightarrow> store \<Rightarrow> nat list \<Rightarrow> nat \<Rightarrow> nat list \<Rightarrow> nat list" where
  "offending_patches ta K nsb fltr L Xi [] offending_literal_id candidates = candidates"
| "offending_patches ta K nsb fltr L Xi (patch # ps) offending_literal_id candidates =
     (case offending_chunks ta K nsb L Xi patch [0..<K - 1] (True, False, offending_literal_id) of
        (max_one, already_one, id1) \<Rightarrow>
      let pos = (K - 1) * nsb + nsb - 1;
          offending_literals =
            (ta pos AND (Xi (patch * K + K - 1) OR NOT (L (K - 1))) AND fltr) XOR (ta pos AND fltr)
      in if offending_literals AND (offending_literals - 1) > 0
         then candidates
         else if offending_literals \<noteq> 0
         then (if \<not> already_one
               then offending_patches ta K nsb fltr L Xi ps (log2_u32 offending_literals)
                      (if max_one then candidates @ [log2_u32 offending_literals] else candidates)
               else candidates)
         else offending_patches ta K nsb fltr L Xi ps id1
                (if max_one \<and> already_one then candidates @ [id1] else candidates))"

definition cb_calculate_clause_output_single_false_literal ::
  "store \<Rightarrow> nat \<Rightarrow> nat \<Rightarrow> u32 \<Rightarrow> nat \<Rightarrow> store \<Rightarrow> store \<Rightarrow> prng \<Rightarrow> int \<times> prng" where
  "cb_calculate_clause_output_single_false_literal ta K nsb fltr P L Xi g =
     (let candidate_offending_literals = offending_patches ta K nsb fltr L Xi [0..<P] 0 [] in
      if length candidate_offending_literals > 0
      then (case fast_rand g of (r, g') \<Rightarrow>
              (int (candidate_offending_literals ! (unat r mod length candidate_offending_literals)), g'))
      else (- 1, g))"

subsection \<open>Type III feedback\<close>

text \<open>
  The bodies of the chunk loops of \<^verbatim>\<open>cb_type_iii_feedback\<close>: lines 373-376, 380-384, 388-398,
  the ledger update of lines 405-414, and lines 421-426. The test
  \<^verbatim>\<open>((float)fast_rand())/((float)FAST_RAND_MAX) <= (1.0 - 1.0/d)\<close> is the predicate
  \<open>within_d\<close> on the drawn word.
\<close>

definition type_iii_ind_inc :: "nat \<Rightarrow> nat \<Rightarrow> nat \<Rightarrow> nat \<Rightarrow> store \<Rightarrow> store \<Rightarrow> store \<Rightarrow> nat \<Rightarrow> nat \<Rightarrow> store \<Rightarrow> store" where
  "type_iii_ind_inc clause_pos_ind j K nsb_ind clause_and_target L Xi clause_patch k ind_state =
     (let ind_pos = k * nsb_ind
      in cb_inc ind_state (clause_pos_ind + ind_pos)
           (L k AND clause_and_target (j * K + k) AND Xi (clause_patch * K + k)) nsb_ind)"

definition type_iii_ind_dec :: "nat \<Rightarrow> nat \<Rightarrow> nat \<Rightarrow> nat \<Rightarrow> store \<Rightarrow> store \<Rightarrow> store \<Rightarrow> nat \<Rightarrow> nat \<Rightarrow> store \<Rightarrow> store" where
  "type_iii_ind_dec clause_pos_ind j K nsb_ind clause_and_target L Xi clause_patch k ind_state =
     (let ind_pos = k * nsb_ind
      in cb_dec ind_state (clause_pos_ind + ind_pos)
           (L k AND NOT (clause_and_target (j * K + k)) AND Xi (clause_patch * K + k)) nsb_ind)"

definition type_iii_invert :: "nat \<Rightarrow> nat \<Rightarrow> u32 \<Rightarrow> nat \<Rightarrow> store \<Rightarrow> store" where
  "type_iii_invert j K target k clause_and_target =
     (let remove = (if target \<noteq> 0 then clause_and_target (j * K + k) else 0);
          add = NOT (clause_and_target (j * K + k));
          cat1 = clause_and_target(j * K + k := clause_and_target (j * K + k) OR add)
      in cat1(j * K + k := cat1 (j * K + k) AND NOT remove))"

definition type_iii_toggle :: "nat \<Rightarrow> nat \<Rightarrow> u32 \<Rightarrow> int \<Rightarrow> store \<Rightarrow> store" where
  "type_iii_toggle j K target offending_literal clause_and_target =
     (if offending_literal \<noteq> - 1
      then let ta_chunk = nat offending_literal div 32;
               ta_pos = nat offending_literal mod 32
           in if clause_and_target (j * K + ta_chunk) AND push_bit ta_pos 1 = 0
              then clause_and_target(j * K + ta_chunk := clause_and_target (j * K + ta_chunk) OR push_bit ta_pos 1)
              else if target \<noteq> 0
              then clause_and_target(j * K + ta_chunk := clause_and_target (j * K + ta_chunk) AND NOT (push_bit ta_pos 1))
              else clause_and_target
      else clause_and_target)"

definition type_iii_ta_dec :: "nat \<Rightarrow> nat \<Rightarrow> nat \<Rightarrow> nat \<Rightarrow> store \<Rightarrow> store \<Rightarrow> nat \<Rightarrow> store \<Rightarrow> store" where
  "type_iii_ta_dec clause_pos_ta clause_pos_ind nsb_ta nsb_ind ind_state L k ta_state =
     (let ta_pos = k * nsb_ta;
          ind_pos = k * nsb_ind
      in cb_dec ta_state (clause_pos_ta + ta_pos)
           (L k AND NOT (ind_state (clause_pos_ind + ind_pos + nsb_ind - 1))) nsb_ta)"

text \<open>
  One iteration of the clause loop (lines 358-427) for an active clause, in two parts:
  lines 363-415 (indicator state and ledger), then the \<^verbatim>\<open>update_p\<close> draw and the decrement
  of the TA state (lines 417-426).
\<close>

definition type_iii_ledger ::
  "nat \<Rightarrow> nat \<Rightarrow> nat \<Rightarrow> nat \<Rightarrow> (u32 \<Rightarrow> bool) \<Rightarrow> store \<Rightarrow> store \<Rightarrow> u32 \<Rightarrow> nat \<Rightarrow> store
     \<Rightarrow> store \<times> store \<times> prng \<Rightarrow> store \<times> store \<times> prng" where
  "type_iii_ledger number_of_features nsb_ta nsb_ind number_of_patches within_d L Xi target j ta_state s =
     (case s of (ind_state, clause_and_target, g) \<Rightarrow>
      let fltr = tail_filter number_of_features;
          K = ta_chunks number_of_features;
          clause_pos_ta = j * K * nsb_ta;
          clause_pos_ind = j * K * nsb_ind
      in case cb_calculate_clause_output_feedback (at_offset ta_state clause_pos_ta) K nsb_ta fltr
                number_of_patches L Xi g of (clause_output, g1) \<Rightarrow>
         (case clause_output of
            Some clause_patch \<Rightarrow>
              (case (if target \<noteq> 0
                     then (case fast_rand g1 of (r, g') \<Rightarrow>
                             (if within_d r
                              then fold (type_iii_ind_inc clause_pos_ind j K nsb_ind clause_and_target
                                           L Xi clause_patch) [0..<K] ind_state
                              else ind_state, g'))
                     else (ind_state, g1)) of (ind1, g2) \<Rightarrow>
                 (fold (type_iii_ind_dec clause_pos_ind j K nsb_ind clause_and_target L Xi clause_patch)
                    [0..<K] ind1,
                  fold (type_iii_invert j K target) [0..<K] clause_and_target,
                  g2))
          | None \<Rightarrow>
              (case cb_calculate_clause_output_single_false_literal (at_offset ta_state clause_pos_ta)
                      K nsb_ta fltr number_of_patches L Xi g1 of (offending_literal, g2) \<Rightarrow>
                 (ind_state, type_iii_toggle j K target offending_literal clause_and_target, g2))))"

definition type_iii_clause ::
  "nat \<Rightarrow> nat \<Rightarrow> nat \<Rightarrow> nat \<Rightarrow> (u32 \<Rightarrow> bool) \<Rightarrow> (u32 \<Rightarrow> bool) \<Rightarrow> store \<Rightarrow> store \<Rightarrow> store \<Rightarrow> u32 \<Rightarrow> nat
     \<Rightarrow> store \<times> store \<times> store \<times> prng \<Rightarrow> store \<times> store \<times> store \<times> prng" where
  "type_iii_clause number_of_features nsb_ta nsb_ind number_of_patches exceeds_update_p within_d
       clause_active L Xi target j s =
     (case s of (ta_state, ind_state, clause_and_target, g) \<Rightarrow>
      if clause_active j = 0 then s
      else
        let K = ta_chunks number_of_features;
            clause_pos_ta = j * K * nsb_ta;
            clause_pos_ind = j * K * nsb_ind
        in case type_iii_ledger number_of_features nsb_ta nsb_ind number_of_patches within_d L Xi target j
                  ta_state (ind_state, clause_and_target, g) of (ind2, cat2, g3) \<Rightarrow>
           (case fast_rand g3 of (u, g4) \<Rightarrow>
              if exceeds_update_p u \<or> clause_active j = 0 then (ta_state, ind2, cat2, g4)
              else (fold (type_iii_ta_dec clause_pos_ta clause_pos_ind nsb_ta nsb_ind ind2 L) [0..<K] ta_state,
                    ind2, cat2, g4)))"

definition cb_type_iii_feedback ::
  "store \<Rightarrow> store \<Rightarrow> store \<Rightarrow> nat \<Rightarrow> nat \<Rightarrow> nat \<Rightarrow> nat \<Rightarrow> nat \<Rightarrow> (u32 \<Rightarrow> bool) \<Rightarrow> (u32 \<Rightarrow> bool)
     \<Rightarrow> store \<Rightarrow> store \<Rightarrow> store \<Rightarrow> u32 \<Rightarrow> prng \<Rightarrow> store \<times> store \<times> store \<times> prng" where
  "cb_type_iii_feedback ta_state ind_state clause_and_target number_of_clauses number_of_features
       number_of_state_bits_ta number_of_state_bits_ind number_of_patches exceeds_update_p within_d
       clause_active literal_active Xi target g =
     fold (type_iii_clause number_of_features number_of_state_bits_ta number_of_state_bits_ind
             number_of_patches exceeds_update_p within_d clause_active literal_active Xi target)
       [0..<number_of_clauses] (ta_state, ind_state, clause_and_target, g)"

subsection \<open>What the search is expected to find\<close>

text \<open>
  The number of set bits of a word, used only to state properties of the search.
\<close>

fun popcount_nat :: "nat \<Rightarrow> nat" where
  "popcount_nat n = (if n = 0 then 0 else n mod 2 + popcount_nat (n div 2))"

declare popcount_nat.simps [simp del]

definition popcount :: "u32 \<Rightarrow> nat" where
  "popcount w = popcount_nat (unat w)"

text \<open>
  The word \<^verbatim>\<open>offending_literals\<close> that \<^verbatim>\<open>cb_calculate_clause_output_single_false_literal\<close>
  computes for chunk \<open>k\<close> of a patch: line 146 for the chunks before the last, line 162
  (with \<^verbatim>\<open>filter\<close>) for the last one. The functions that follow it are not part of the
  program; the search function above is compared with them. \<open>offending_count\<close> is the number
  of set bits of these words over the whole stripe of the patch. \<open>offending_position\<close> is
  \<^verbatim>\<open>log2\<close> of the first non-zero word, the position of a bit inside its 32-bit word.
\<close>

definition offending_word :: "store \<Rightarrow> nat \<Rightarrow> nat \<Rightarrow> u32 \<Rightarrow> store \<Rightarrow> store \<Rightarrow> nat \<Rightarrow> nat \<Rightarrow> u32" where
  "offending_word ta K nsb fltr L Xi patch k =
     (let pos = k * nsb + nsb - 1 in
      if k = K - 1
      then (ta pos AND (Xi (patch * K + K - 1) OR NOT (L (K - 1))) AND fltr) XOR (ta pos AND fltr)
      else (ta pos AND (Xi (patch * K + k) OR NOT (L k))) XOR ta pos)"

definition offending_count :: "store \<Rightarrow> nat \<Rightarrow> nat \<Rightarrow> u32 \<Rightarrow> store \<Rightarrow> store \<Rightarrow> nat \<Rightarrow> nat" where
  "offending_count ta K nsb fltr L Xi patch =
     sum_list (map (\<lambda>k. popcount (offending_word ta K nsb fltr L Xi patch k)) [0..<K])"

definition first_offending :: "u32 list \<Rightarrow> u32" where
  "first_offending ws = (case filter (\<lambda>w. w \<noteq> 0) ws of [] \<Rightarrow> 0 | w # _ \<Rightarrow> w)"

definition offending_position :: "store \<Rightarrow> nat \<Rightarrow> nat \<Rightarrow> u32 \<Rightarrow> store \<Rightarrow> store \<Rightarrow> nat \<Rightarrow> nat" where
  "offending_position ta K nsb fltr L Xi patch =
     log2_u32 (first_offending (map (offending_word ta K nsb fltr L Xi patch) [0..<K]))"

text \<open>
  \<open>offending_literal\<close> is the index of the first offending bit in the stripe, counted over
  the chunks: 32 times the chunk number plus the position inside the word. For a patch with
  exactly one offending bit it is the index of that literal.
\<close>

definition offending_literal :: "store \<Rightarrow> nat \<Rightarrow> nat \<Rightarrow> u32 \<Rightarrow> store \<Rightarrow> store \<Rightarrow> nat \<Rightarrow> nat" where
  "offending_literal ta K nsb fltr L Xi patch =
     (case filter (\<lambda>k. offending_word ta K nsb fltr L Xi patch k \<noteq> 0) [0..<K] of
        [] \<Rightarrow> 0
      | k # _ \<Rightarrow> 32 * k + log2_u32 (offending_word ta K nsb fltr L Xi patch k))"

text \<open>
  \<open>tail_break\<close> says when one of the two \<^verbatim>\<open>break\<close> statements of lines 163-174 is reached for a
  patch: the last chunk has more than one offending bit, or it has exactly one and the
  first offending word of the earlier chunks has exactly one bit (the chunk loop then ends
  with \<^verbatim>\<open>already_one_offending_literal\<close> set).
\<close>

definition tail_break :: "store \<Rightarrow> nat \<Rightarrow> nat \<Rightarrow> u32 \<Rightarrow> store \<Rightarrow> store \<Rightarrow> nat \<Rightarrow> bool" where
  "tail_break ta K nsb fltr L Xi patch =
     (let t = offending_word ta K nsb fltr L Xi patch (K - 1);
          f = first_offending (map (offending_word ta K nsb fltr L Xi patch) [0..<K - 1])
      in 2 \<le> popcount t \<or> (popcount t = 1 \<and> popcount f = 1))"

subsection \<open>Sample inputs\<close>

text \<open>
  A generator whose \<open>n\<close>-th uniform draw is the word \<open>n\<close> and whose normal draws are all 2,
  and a \<^verbatim>\<open>clause_active\<close> array in which clause 1 is switched off. They serve as concrete
  inputs on which the theorems below are instantiated.
\<close>

definition counting_prng :: prng where
  "counting_prng = \<lparr>draws = of_nat, used = 0, normals = (\<lambda>_. 2), normals_used = 0\<rparr>"

definition two_clauses :: store where
  "two_clauses = (\<lambda>j. if j = 1 then 0 else 1)"

text \<open>
  A clause over \<open>F = 36\<close> features (two chunks, one state bit) that includes the literals 0, 1,
  2 and 34, and six patches, two words each. Patch 0 falsifies literal 0 only, patch 1 the
  literals 0, 1 and 2, patch 2 literal 1 only, patch 3 literal 34 only, patch 4 the literals
  0 and 34, patch 5 literal 2 only.
\<close>

definition two_chunk_actions :: store where
  "two_chunk_actions = (\<lambda>a. if a = 0 then 7 else 4)"

definition six_patches :: store where
  "six_patches = (\<lambda>a. if a < 12 then [6, 4, 0, 4, 5, 4, 7, 0, 6, 0, 3, 4] ! a else 0)"

section \<open>Properties\<close>

subsection \<open>Counter semantics of \<^verbatim>\<open>cb_inc\<close> and \<^verbatim>\<open>cb_dec\<close>\<close>

lemma planes_val_bound: "planes_val n ta pos i < 2 ^ n"
proof (induction n arbitrary: pos)
  case 0 show ?case by simp
next
  case (Suc n)
  from Suc[of "Suc pos"] show ?case by simp
qed

lemma planes_val_cong: "(\<And>a. pos \<le> a \<Longrightarrow> a < pos + n \<Longrightarrow> bit (t1 a) i = bit (t2 a) i) \<Longrightarrow> planes_val n t1 pos i = planes_val n t2 pos i"
  by (induction n arbitrary: pos) auto

lemma inc_carry_frame:
  "inc_carry [b..<b+n] base ta carry = (ta', c') \<Longrightarrow> a < base + b \<or> base + b + n \<le> a \<Longrightarrow> ta' a = ta a"
proof (induction n arbitrary: b ta carry)
  case 0 then show ?case by simp
next
  case (Suc n)
  have l: "[b..<b + Suc n] = b # [Suc b..<Suc b + n]" by (simp add: upt_conv_Cons)
  show ?case
  proof (cases "carry = 0")
    case True with Suc.prems l show ?thesis by simp
  next
    case False
    with Suc.prems l have "inc_carry [Suc b..<Suc b + n] base (ta(base + b := ta (base + b) XOR carry)) (ta (base + b) AND carry) = (ta', c')"
      by (simp add: Let_def)
    from Suc.IH[OF this] Suc.prems(2) show ?thesis by auto
  qed
qed

lemma inc_carry_lane:
  "inc_carry [b..<b+n] base ta carry = (ta', c') \<Longrightarrow>
   planes_val n ta' (base + b) i + (if bit c' i then 2 ^ n else 0)
   = planes_val n ta (base + b) i + (if bit carry i then 1 else 0)"
proof (induction n arbitrary: b ta carry)
  case 0 then show ?case by simp
next
  case (Suc n)
  have l: "[b..<b + Suc n] = b # [Suc b..<Suc b + n]" by (simp add: upt_conv_Cons)
  show ?case
  proof (cases "carry = 0")
    case True with Suc.prems l show ?thesis by auto
  next
    case False
    let ?t1 = "ta(base + b := ta (base + b) XOR carry)"
    from False Suc.prems l have r: "inc_carry [Suc b..<Suc b + n] base ?t1 (ta (base + b) AND carry) = (ta', c')"
      by (simp add: Let_def)
    from Suc.IH[OF r] have ih: "planes_val n ta' (base + Suc b) i + (if bit c' i then 2 ^ n else 0)
       = planes_val n ?t1 (base + Suc b) i + (if bit (ta (base + b) AND carry) i then 1 else 0)" .
    have f: "ta' (base + b) = ?t1 (base + b)" using inc_carry_frame[OF r, of "base + b"] by simp
    have g: "planes_val n ?t1 (base + Suc b) i = planes_val n ta (base + Suc b) i"
      by (rule planes_val_cong) auto
    show ?thesis using ih f g by (auto simp: bit_and_iff bit_xor_iff)
  qed
qed

lemma dec_carry_frame:
  "dec_carry [b..<b+n] base ta carry = (ta', c') \<Longrightarrow> a < base + b \<or> base + b + n \<le> a \<Longrightarrow> ta' a = ta a"
proof (induction n arbitrary: b ta carry)
  case 0 then show ?case by simp
next
  case (Suc n)
  have l: "[b..<b + Suc n] = b # [Suc b..<Suc b + n]" by (simp add: upt_conv_Cons)
  show ?case
  proof (cases "carry = 0")
    case True with Suc.prems l show ?thesis by simp
  next
    case False
    with Suc.prems l have "dec_carry [Suc b..<Suc b + n] base (ta(base + b := ta (base + b) XOR carry)) (NOT (ta (base + b)) AND carry) = (ta', c')"
      by (simp add: Let_def)
    from Suc.IH[OF this] Suc.prems(2) show ?thesis by auto
  qed
qed

lemma dec_carry_lane:
  "dec_carry [b..<b+n] base ta carry = (ta', c') \<Longrightarrow> i < 32 \<Longrightarrow>
   planes_val n ta' (base + b) i + (if bit carry i then 1 else 0)
   = planes_val n ta (base + b) i + (if bit c' i then 2 ^ n else 0)"
proof (induction n arbitrary: b ta carry)
  case 0 then show ?case by simp
next
  case (Suc n)
  have l: "[b..<b + Suc n] = b # [Suc b..<Suc b + n]" by (simp add: upt_conv_Cons)
  show ?case
  proof (cases "carry = 0")
    case True with Suc.prems l show ?thesis by auto
  next
    case False
    let ?t1 = "ta(base + b := ta (base + b) XOR carry)"
    from False Suc.prems l have r: "dec_carry [Suc b..<Suc b + n] base ?t1 (NOT (ta (base + b)) AND carry) = (ta', c')"
      by (simp add: Let_def)
    from Suc.IH[OF r Suc.prems(2)] have ih: "planes_val n ta' (base + Suc b) i + (if bit (NOT (ta (base + b)) AND carry) i then 1 else 0)
       = planes_val n ?t1 (base + Suc b) i + (if bit c' i then 2 ^ n else 0)" .
    have f: "ta' (base + b) = ?t1 (base + b)" using dec_carry_frame[OF r, of "base + b"] by simp
    have g: "planes_val n ?t1 (base + Suc b) i = planes_val n ta (base + Suc b) i"
      by (rule planes_val_cong) auto
    show ?thesis using ih f g Suc.prems(2) by (auto simp: bit_and_iff bit_xor_iff bit_not_iff)
  qed
qed

lemma fold_or_planes:
  "fold (\<lambda>b t. t(base + b := t (base + b) OR c)) [0..<n] ta a
     = (if base \<le> a \<and> a < base + n then ta a OR c else ta a)"
  by (induction n arbitrary: a) auto

lemma fold_and_planes:
  "fold (\<lambda>b t. t(base + b := t (base + b) AND c)) [0..<n] ta a
     = (if base \<le> a \<and> a < base + n then ta a AND c else ta a)"
  by (induction n arbitrary: a) auto

lemma planes_val_all_set:
  "(\<And>a. pos \<le> a \<Longrightarrow> a < pos + n \<Longrightarrow> bit (t a) i) \<Longrightarrow> planes_val n t pos i = 2 ^ n - 1"
proof (induction n arbitrary: pos)
  case 0 show ?case by simp
next
  case (Suc n)
  have "planes_val n t (Suc pos) i = 2 ^ n - 1" by (rule Suc.IH) (simp add: Suc.prems)
  moreover have "bit (t pos) i" by (rule Suc.prems) simp_all
  moreover obtain m where "(2::nat) ^ n = Suc m" by (cases "(2::nat) ^ n") auto
  ultimately show ?case by simp
qed

lemma planes_val_all_clear:
  "(\<And>a. pos \<le> a \<Longrightarrow> a < pos + n \<Longrightarrow> \<not> bit (t a) i) \<Longrightarrow> planes_val n t pos i = 0"
  by (induction n arbitrary: pos) auto

lemma cb_inc_outside: "a < base \<or> base + nsb \<le> a \<Longrightarrow> cb_inc ta base active nsb a = ta a"
  using inc_carry_frame[of 0 nsb base ta active _ _ a]
  by (auto simp: cb_inc_def fold_or_planes split: prod.splits)

lemma cb_dec_outside: "a < base \<or> base + nsb \<le> a \<Longrightarrow> cb_dec ta base active nsb a = ta a"
  using dec_carry_frame[of 0 nsb base ta active _ _ a]
  by (auto simp: cb_dec_def fold_and_planes split: prod.splits)

lemma cb_inc_counter:
  "i < 32 \<Longrightarrow> counter (cb_inc ta base active nsb) base nsb i
     = (if bit active i then min (counter ta base nsb i + 1) (2 ^ nsb - 1) else counter ta base nsb i)"
proof -
  assume i: "i < 32"
  obtain ta1 c where r: "inc_carry [0..<nsb] base ta active = (ta1, c)" by (cases "inc_carry [0..<nsb] base ta active")
  from inc_carry_lane[of 0 nsb base ta active ta1 c i] r
  have inv: "planes_val nsb ta1 base i + (if bit c i then 2 ^ nsb else 0)
     = planes_val nsb ta base i + (if bit active i then 1 else 0)" by simp
  have b0: "planes_val nsb ta base i < 2 ^ nsb" and b1: "planes_val nsb ta1 base i < 2 ^ nsb"
    by (rule planes_val_bound)+
  show ?thesis
  proof (cases "bit c i")
    case True
    then have c0: "c \<noteq> 0" by auto
    then have cpos: "c > 0" by (simp add: word_greater_zero_iff)
    from True inv b0 b1 have v: "planes_val nsb ta base i = 2 ^ nsb - 1" and a: "bit active i"
      by (auto split: if_splits)
    have "planes_val nsb (cb_inc ta base active nsb) base i = 2 ^ nsb - 1"
      by (rule planes_val_all_set) (simp add: cb_inc_def r cpos fold_or_planes bit_or_iff True)
    with v a show ?thesis by (simp add: counter_def)
  next
    case False
    have "planes_val nsb (cb_inc ta base active nsb) base i = planes_val nsb ta1 base i"
      by (rule planes_val_cong) (simp add: cb_inc_def r fold_or_planes bit_or_iff False)
    with False inv b1 show ?thesis by (auto simp: counter_def split: if_splits)
  qed
qed

lemma cb_dec_counter:
  "i < 32 \<Longrightarrow> counter (cb_dec ta base active nsb) base nsb i
     = (if bit active i then counter ta base nsb i - 1 else counter ta base nsb i)"
proof -
  assume i: "i < 32"
  obtain ta1 c where r: "dec_carry [0..<nsb] base ta active = (ta1, c)" by (cases "dec_carry [0..<nsb] base ta active")
  from dec_carry_lane[of 0 nsb base ta active ta1 c i] r i
  have inv: "planes_val nsb ta1 base i + (if bit active i then 1 else 0)
     = planes_val nsb ta base i + (if bit c i then 2 ^ nsb else 0)" by simp
  have b0: "planes_val nsb ta base i < 2 ^ nsb" and b1: "planes_val nsb ta1 base i < 2 ^ nsb"
    by (rule planes_val_bound)+
  show ?thesis
  proof (cases "bit c i")
    case True
    then have c0: "c \<noteq> 0" by auto
    then have cpos: "c > 0" by (simp add: word_greater_zero_iff)
    from True inv b0 b1 have v: "planes_val nsb ta base i = 0" and a: "bit active i"
      by (auto split: if_splits)
    have "planes_val nsb (cb_dec ta base active nsb) base i = 0"
      by (rule planes_val_all_clear) (simp add: cb_dec_def r cpos fold_and_planes bit_and_iff bit_not_iff True i)
    with v a show ?thesis by (simp add: counter_def)
  next
    case False
    have "planes_val nsb (cb_dec ta base active nsb) base i = planes_val nsb ta1 base i"
      by (rule planes_val_cong) (simp add: cb_dec_def r fold_and_planes bit_and_iff bit_not_iff False i)
    with False inv b1 show ?thesis by (auto simp: counter_def split: if_splits)
  qed
qed


text \<open>
  Claim C6. The bit-sliced counters saturate. For every lane \<open>i < 32\<close> of a stripe of
  \<open>nsb\<close> planes: after any sequence of \<^verbatim>\<open>cb_inc\<close>/\<^verbatim>\<open>cb_dec\<close> calls with arbitrary masks
  the counter is at most \<open>2^nsb - 1\<close>; \<^verbatim>\<open>cb_inc\<close> on a counter at \<open>2^nsb - 1\<close> leaves it
  there; \<^verbatim>\<open>cb_dec\<close> on a counter at 0 leaves it at 0; and a lane that the mask does not
  select keeps its value under both.
\<close>

theorem saturating_counters:
  assumes "i < 32"
  shows "counter (run_ops ops ta base nsb) base nsb i \<le> 2 ^ nsb - 1
       \<and> (counter ta base nsb i = 2 ^ nsb - 1 \<longrightarrow> counter (cb_inc ta base m nsb) base nsb i = 2 ^ nsb - 1)
       \<and> (counter ta base nsb i = 0 \<longrightarrow> counter (cb_dec ta base m nsb) base nsb i = 0)
       \<and> (\<not> bit m i \<longrightarrow> counter (cb_inc ta base m nsb) base nsb i = counter ta base nsb i
                      \<and> counter (cb_dec ta base m nsb) base nsb i = counter ta base nsb i)"
proof -
  have "counter (run_ops ops ta base nsb) base nsb i < 2 ^ nsb"
    unfolding counter_def by (rule planes_val_bound)
  then show ?thesis using assms by (simp add: cb_inc_counter cb_dec_counter)
qed

theorem saturating_counters_witness:
  "(3::nat) < 32
   \<and> counter (run_ops [Inc 8, Inc 8, Dec 7] (\<lambda>_. 8) 0 2) 0 2 3 \<le> 2 ^ 2 - 1
   \<and> counter (\<lambda>_. 8) 0 2 3 = 2 ^ 2 - 1 \<and> counter (cb_inc (\<lambda>_. 8) 0 8 2) 0 2 3 = 2 ^ 2 - 1
   \<and> counter (\<lambda>_. 0) 0 2 3 = 0 \<and> counter (cb_dec (\<lambda>_. 0) 0 8 2) 0 2 3 = 0
   \<and> \<not> bit (7::u32) 3 \<and> counter (cb_inc (\<lambda>_. 8) 0 7 2) 0 2 3 = counter (\<lambda>_. 8) 0 2 3"
proof -
  have h: "(3::nat) < 32" by simp
  have e: "counter (\<lambda>_. 8) 0 2 3 = 2 ^ 2 - 1" "counter (\<lambda>_. 0) 0 2 3 = 0" "\<not> bit (7::u32) 3"
    by code_simp+
  from saturating_counters[OF h, of "[Inc 8, Inc 8, Dec 7]" "\<lambda>_. 8" 0 2 8]
       saturating_counters[OF h, of "[]" "\<lambda>_. 0" 0 2 8]
       saturating_counters[OF h, of "[]" "\<lambda>_. 8" 0 2 7] e
  show ?thesis by simp
qed

subsection \<open>Clause evaluation in closed form\<close>

lemma all_ones_u32: "(0xffffffff::u32) = - 1"
  by simp

lemma bit_tail_filter: "bit (tail_filter F) l \<longleftrightarrow> l < 32 \<and> (F mod 32 = 0 \<or> l < F mod 32)"
  unfolding tail_filter_def all_ones_u32
  by (auto simp: bit_not_iff bit_push_bit_iff bit_mask_iff dest: bit_imp_le_length)

lemma masked_chunks_iff:
  "masked_chunks ta K nsb L Xi patch ks \<longleftrightarrow>
     (\<forall>k\<in>set ks. ta (k * nsb + nsb - 1) AND (Xi (patch * K + k) OR lnot32 (L k)) = ta (k * nsb + nsb - 1))"
  by (induction ks) (auto simp: Let_def)

lemma plain_chunks_iff:
  "plain_chunks ta K nsb Xi patch ks \<longleftrightarrow>
     (\<forall>k\<in>set ks. ta (k * nsb + nsb - 1) AND Xi (patch * K + k) = ta (k * nsb + nsb - 1))"
  by (induction ks) (auto simp: Let_def)

lemma predict_chunks_fst:
  "fst (predict_chunks ta K nsb Xi patch ks ae) = plain_chunks ta K nsb Xi patch ks"
  by (induction ks arbitrary: ae) (auto simp: Let_def)

lemma predict_chunks_snd:
  "plain_chunks ta K nsb Xi patch ks \<Longrightarrow>
   snd (predict_chunks ta K nsb Xi patch ks ae) = (ae \<and> (\<forall>k\<in>set ks. ta (k * nsb + nsb - 1) = 0))"
  by (induction ks arbitrary: ae) (auto simp: Let_def split: if_splits)

lemma update_patches_iff:
  "update_patches ta K nsb fltr L Xi ps = (if \<exists>p\<in>set ps. masked_patch_output ta K nsb fltr L Xi p then 1 else 0)"
  by (induction ps) auto

lemma feedback_patches_filter:
  "feedback_patches ta K nsb fltr L Xi ps acc = acc @ filter (masked_patch_output ta K nsb fltr L Xi) ps"
  by (induction ps arbitrary: acc) auto

lemma predict_patches_iff:
  "predict_patches ta K nsb fltr Xi ps =
     (if (\<exists>p\<in>set ps. plain_patch_output ta K nsb fltr Xi p) \<and> \<not> all_exclude_clause ta K nsb fltr then 1 else 0)"
proof (induction ps)
  case Nil show ?case by simp
next
  case (Cons p ps)
  obtain o0 a0 where r: "predict_chunks ta K nsb Xi p [0..<K - 1] True = (o0, a0)"
    by (cases "predict_chunks ta K nsb Xi p [0..<K - 1] True")
  have o0: "o0 = plain_chunks ta K nsb Xi p [0..<K - 1]" using predict_chunks_fst[of ta K nsb Xi p "[0..<K - 1]" True] r by simp
  have a0: "o0 \<Longrightarrow> a0 = (\<forall>k\<in>set [0..<K - 1]. ta (k * nsb + nsb - 1) = 0)"
    using predict_chunks_snd[of ta K nsb Xi p "[0..<K - 1]" True] r o0 by simp
  have step: "predict_patches ta K nsb fltr Xi (p # ps) =
      (if plain_patch_output ta K nsb fltr Xi p \<and> \<not> (a0 \<and> ta ((K - 1) * nsb + nsb - 1) AND fltr = 0) then 1
       else predict_patches ta K nsb fltr Xi ps)"
    by (simp only: predict_patches.simps r prod.case Let_def plain_patch_output_def o0)
  show ?case
  proof (cases "plain_patch_output ta K nsb fltr Xi p")
    case True
    then have "o0" by (simp add: plain_patch_output_def o0)
    from a0[OF this] have "(a0 \<and> ta ((K - 1) * nsb + nsb - 1) AND fltr = 0) = all_exclude_clause ta K nsb fltr"
      by (simp add: all_exclude_clause_def)
    with True step Cons show ?thesis by auto
  next
    case False
    with step Cons show ?thesis by auto
  qed
qed


subsection \<open>Literal positions and the tail filter\<close>

lemma nontail_literal: "k < ta_chunks F - 1 \<Longrightarrow> l < 32 \<Longrightarrow> 32 * k + l < F"
proof -
  assume k: "k < ta_chunks F - 1" and l: "l < 32"
  define q where "q = (F - 1) div 32"
  have "32 * q + (F - 1) mod 32 = F - 1" unfolding q_def by simp
  moreover from k have "k < q" by (simp add: ta_chunks_def q_def)
  ultimately show ?thesis using l by linarith
qed

lemma tail_literal: "0 < F \<Longrightarrow> bit (tail_filter F) l \<Longrightarrow> 32 * (ta_chunks F - 1) + l < F"
proof -
  assume F: "0 < F" and bt: "bit (tail_filter F) l"
  from bt have l: "l < 32" and d: "F mod 32 = 0 \<or> l < F mod 32" by (simp_all add: bit_tail_filter)
  obtain n where n: "F = Suc n" using F by (cases F) auto
  define q where "q = n div 32"
  have e: "32 * q + n mod 32 = n" unfolding q_def by simp
  have m: "Suc n mod 32 = (if Suc (n mod 32) = 32 then 0 else Suc (n mod 32))" by (rule mod_Suc)
  show ?thesis
  proof (cases "Suc (n mod 32) = 32")
    case True
    with e l have "32 * q + l < Suc n" by linarith
    then show ?thesis by (simp add: n q_def ta_chunks_def)
  next
    case False
    with m d n have "l < Suc (n mod 32)" by simp
    with e have "32 * q + l < Suc n" by linarith
    then show ?thesis by (simp add: n q_def ta_chunks_def)
  qed
qed

lemma agree_nontail:
  assumes "\<forall>i<F. action_bit t nsb i = action_bit t' nsb i" and "k < ta_chunks F - 1"
  shows "t (k * nsb + nsb - 1) = t' (k * nsb + nsb - 1)"
proof (rule bit_word_eqI)
  fix l assume "l < LENGTH(32)"
  then have l: "l < 32" by simp
  from nontail_literal[OF assms(2) l] assms(1)
  have "action_bit t nsb (32 * k + l) = action_bit t' nsb (32 * k + l)" by blast
  with l show "bit (t (k * nsb + nsb - 1)) l = bit (t' (k * nsb + nsb - 1)) l"
    by (simp add: action_bit_def)
qed

lemma agree_tail:
  assumes "\<forall>i<F. action_bit t nsb i = action_bit t' nsb i" and "0 < F"
  shows "t ((ta_chunks F - 1) * nsb + nsb - 1) AND tail_filter F = t' ((ta_chunks F - 1) * nsb + nsb - 1) AND tail_filter F"
proof (rule bit_word_eqI)
  fix l assume "l < LENGTH(32)"
  then have l: "l < 32" by simp
  show "bit (t ((ta_chunks F - 1) * nsb + nsb - 1) AND tail_filter F) l = bit (t' ((ta_chunks F - 1) * nsb + nsb - 1) AND tail_filter F) l"
  proof (cases "bit (tail_filter F) l")
    case True
    from tail_literal[OF assms(2) True] assms(1)
    have "action_bit t nsb (32 * (ta_chunks F - 1) + l) = action_bit t' nsb (32 * (ta_chunks F - 1) + l)" by blast
    with l True show ?thesis by (simp add: action_bit_def bit_and_iff)
  next
    case False then show ?thesis by (simp add: bit_and_iff)
  qed
qed


lemma masked_patch_output_agree:
  assumes "\<forall>i<F. action_bit t nsb i = action_bit t' nsb i" and "0 < F"
  shows "masked_patch_output t (ta_chunks F) nsb (tail_filter F) L Xi p
       = masked_patch_output t' (ta_chunks F) nsb (tail_filter F) L Xi p"
proof -
  have n: "\<And>k. k \<in> set [0..<ta_chunks F - 1] \<Longrightarrow> t (k * nsb + nsb - 1) = t' (k * nsb + nsb - 1)"
    using agree_nontail[OF assms(1)] by simp
  have c: "masked_chunks t (ta_chunks F) nsb L Xi p [0..<ta_chunks F - 1]
         = masked_chunks t' (ta_chunks F) nsb L Xi p [0..<ta_chunks F - 1]"
    unfolding masked_chunks_iff using n by (intro ball_cong refl) simp
  have r: "\<And>(w::u32) X f. w AND X AND f = (w AND f) AND X" by (simp add: ac_simps)
  show ?thesis
    unfolding masked_patch_output_def Let_def c r agree_tail[OF assms] ..
qed

lemma plain_patch_output_agree:
  assumes "\<forall>i<F. action_bit t nsb i = action_bit t' nsb i" and "0 < F"
  shows "plain_patch_output t (ta_chunks F) nsb (tail_filter F) Xi p
       = plain_patch_output t' (ta_chunks F) nsb (tail_filter F) Xi p"
proof -
  have n: "\<And>k. k \<in> set [0..<ta_chunks F - 1] \<Longrightarrow> t (k * nsb + nsb - 1) = t' (k * nsb + nsb - 1)"
    using agree_nontail[OF assms(1)] by simp
  have c: "plain_chunks t (ta_chunks F) nsb Xi p [0..<ta_chunks F - 1]
         = plain_chunks t' (ta_chunks F) nsb Xi p [0..<ta_chunks F - 1]"
    unfolding plain_chunks_iff using n by (intro ball_cong refl) simp
  have r: "\<And>(w::u32) X f. w AND X AND f = (w AND f) AND X" by (simp add: ac_simps)
  show ?thesis
    unfolding plain_patch_output_def Let_def c r agree_tail[OF assms] ..
qed

lemma all_exclude_clause_agree:
  assumes "\<forall>i<F. action_bit t nsb i = action_bit t' nsb i" and "0 < F"
  shows "all_exclude_clause t (ta_chunks F) nsb (tail_filter F)
       = all_exclude_clause t' (ta_chunks F) nsb (tail_filter F)"
proof -
  have n: "\<And>k. k \<in> set [0..<ta_chunks F - 1] \<Longrightarrow> t (k * nsb + nsb - 1) = t' (k * nsb + nsb - 1)"
    using agree_nontail[OF assms(1)] by simp
  have c: "(\<forall>k\<in>set [0..<ta_chunks F - 1]. t (k * nsb + nsb - 1) = 0)
         = (\<forall>k\<in>set [0..<ta_chunks F - 1]. t' (k * nsb + nsb - 1) = 0)"
    using n by (intro ball_cong refl) simp
  show ?thesis
    unfolding all_exclude_clause_def c agree_tail[OF assms] ..
qed

lemma clause_outputs_agree:
  assumes "\<forall>i<F. action_bit t nsb i = action_bit t' nsb i" and "0 < F"
  shows "cb_calculate_clause_output_predict t (ta_chunks F) nsb (tail_filter F) P Xi
           = cb_calculate_clause_output_predict t' (ta_chunks F) nsb (tail_filter F) P Xi"
    and "cb_calculate_clause_output_update t (ta_chunks F) nsb (tail_filter F) P L Xi
           = cb_calculate_clause_output_update t' (ta_chunks F) nsb (tail_filter F) P L Xi"
    and "cb_calculate_clause_output_patchwise t (ta_chunks F) nsb (tail_filter F) P out ob Xi
           = cb_calculate_clause_output_patchwise t' (ta_chunks F) nsb (tail_filter F) P out ob Xi"
    and "cb_calculate_clause_output_feedback t (ta_chunks F) nsb (tail_filter F) P L Xi g
           = cb_calculate_clause_output_feedback t' (ta_chunks F) nsb (tail_filter F) P L Xi g"
proof -
  have m: "masked_patch_output t (ta_chunks F) nsb (tail_filter F) L Xi
         = masked_patch_output t' (ta_chunks F) nsb (tail_filter F) L Xi"
    by (rule ext) (rule masked_patch_output_agree[OF assms])
  have p: "plain_patch_output t (ta_chunks F) nsb (tail_filter F) Xi
         = plain_patch_output t' (ta_chunks F) nsb (tail_filter F) Xi"
    by (rule ext) (rule plain_patch_output_agree[OF assms])
  show "cb_calculate_clause_output_predict t (ta_chunks F) nsb (tail_filter F) P Xi
           = cb_calculate_clause_output_predict t' (ta_chunks F) nsb (tail_filter F) P Xi"
    unfolding cb_calculate_clause_output_predict_def predict_patches_iff p all_exclude_clause_agree[OF assms] ..
  show "cb_calculate_clause_output_update t (ta_chunks F) nsb (tail_filter F) P L Xi
           = cb_calculate_clause_output_update t' (ta_chunks F) nsb (tail_filter F) P L Xi"
    unfolding cb_calculate_clause_output_update_def update_patches_iff m ..
  show "cb_calculate_clause_output_patchwise t (ta_chunks F) nsb (tail_filter F) P out ob Xi
           = cb_calculate_clause_output_patchwise t' (ta_chunks F) nsb (tail_filter F) P out ob Xi"
    unfolding cb_calculate_clause_output_patchwise_def p ..
  show "cb_calculate_clause_output_feedback t (ta_chunks F) nsb (tail_filter F) P L Xi g
           = cb_calculate_clause_output_feedback t' (ta_chunks F) nsb (tail_filter F) P L Xi g"
    unfolding cb_calculate_clause_output_feedback_def feedback_patches_filter m ..
qed

text \<open>
  Claim C9. Let \<open>F \<ge> 1\<close> features. If two banks carry the same action bit at every literal
  position \<open>i < F\<close> of every clause (whatever else differs, in particular the positions
  \<open>\<ge> F\<close> of the tail chunk), then PredictEval, UpdateEval and PatchwiseEval write the same
  outputs, and the Feedback-mode evaluation of every clause returns the same output
  and patch from the same generator state.
\<close>

theorem tail_padding_never_read:
  assumes "0 < F"
    and "\<forall>j<C. \<forall>i<F. action_bit (at_offset ta (j * ta_chunks F * nsb)) nsb i
                       = action_bit (at_offset ta' (j * ta_chunks F * nsb)) nsb i"
  shows "cb_calculate_clause_outputs_predict ta C F nsb P out Xi
           = cb_calculate_clause_outputs_predict ta' C F nsb P out Xi
       \<and> cb_calculate_clause_outputs_update ta C F nsb P out L Xi
           = cb_calculate_clause_outputs_update ta' C F nsb P out L Xi
       \<and> cb_calculate_clause_outputs_patchwise ta C F nsb P out Xi
           = cb_calculate_clause_outputs_patchwise ta' C F nsb P out Xi
       \<and> (\<forall>j<C. cb_calculate_clause_output_feedback (at_offset ta (j * ta_chunks F * nsb))
                    (ta_chunks F) nsb (tail_filter F) P L Xi g
                = cb_calculate_clause_output_feedback (at_offset ta' (j * ta_chunks F * nsb))
                    (ta_chunks F) nsb (tail_filter F) P L Xi g)"
proof -
  have a: "\<And>j. j \<in> set [0..<C] \<Longrightarrow>
             \<forall>i<F. action_bit (at_offset ta (j * ta_chunks F * nsb)) nsb i
                  = action_bit (at_offset ta' (j * ta_chunks F * nsb)) nsb i"
    using assms(2) by simp
  have 1: "cb_calculate_clause_outputs_predict ta C F nsb P out Xi
           = cb_calculate_clause_outputs_predict ta' C F nsb P out Xi"
    unfolding cb_calculate_clause_outputs_predict_def Let_def
    by (rule fold_cong[OF refl refl]) (simp only: clause_outputs_agree(1)[OF a assms(1)])
  have 2: "cb_calculate_clause_outputs_update ta C F nsb P out L Xi
           = cb_calculate_clause_outputs_update ta' C F nsb P out L Xi"
    unfolding cb_calculate_clause_outputs_update_def Let_def
    by (rule fold_cong[OF refl refl]) (simp only: clause_outputs_agree(2)[OF a assms(1)])
  have 3: "cb_calculate_clause_outputs_patchwise ta C F nsb P out Xi
           = cb_calculate_clause_outputs_patchwise ta' C F nsb P out Xi"
    unfolding cb_calculate_clause_outputs_patchwise_def Let_def
    by (rule fold_cong[OF refl refl]) (simp only: clause_outputs_agree(3)[OF a assms(1)])
  have 4: "\<forall>j<C. cb_calculate_clause_output_feedback (at_offset ta (j * ta_chunks F * nsb))
                    (ta_chunks F) nsb (tail_filter F) P L Xi g
                = cb_calculate_clause_output_feedback (at_offset ta' (j * ta_chunks F * nsb))
                    (ta_chunks F) nsb (tail_filter F) P L Xi g"
    using clause_outputs_agree(4)[OF a assms(1)] by simp
  from 1 2 3 4 show ?thesis by blast
qed


theorem tail_padding_never_read_witness:
  "(0::nat) < 3
   \<and> list_all (\<lambda>i. action_bit (at_offset (\<lambda>_. 7) (0 * ta_chunks 3 * 1)) 1 i
                      = action_bit (at_offset (\<lambda>_. 15) (0 * ta_chunks 3 * 1)) 1 i) [0..<3]
   \<and> action_bit (\<lambda>_. 7) 1 3 \<noteq> action_bit (\<lambda>_. 15) 1 3
   \<and> cb_calculate_clause_outputs_predict (\<lambda>_. 7) 1 3 1 1 (\<lambda>_. 0) (\<lambda>_. 255)
       = cb_calculate_clause_outputs_predict (\<lambda>_. 15) 1 3 1 1 (\<lambda>_. 0) (\<lambda>_. 255)
   \<and> cb_calculate_clause_outputs_update (\<lambda>_. 7) 1 3 1 1 (\<lambda>_. 0) (\<lambda>_. 255) (\<lambda>_. 255)
       = cb_calculate_clause_outputs_update (\<lambda>_. 15) 1 3 1 1 (\<lambda>_. 0) (\<lambda>_. 255) (\<lambda>_. 255)
   \<and> cb_calculate_clause_outputs_patchwise (\<lambda>_. 7) 1 3 1 1 (\<lambda>_. 0) (\<lambda>_. 255)
       = cb_calculate_clause_outputs_patchwise (\<lambda>_. 15) 1 3 1 1 (\<lambda>_. 0) (\<lambda>_. 255)
   \<and> cb_calculate_clause_outputs_predict (\<lambda>_. 15) 1 3 1 1 (\<lambda>_. 0) (\<lambda>_. 255) 0 = 1"
proof -
  have b: "\<And>i. i < 3 \<Longrightarrow> bit (7::u32) i = bit (15::u32) i"
  proof -
    fix i :: nat assume "i < 3"
    then consider "i = 0" | "i = 1" | "i = 2" by linarith
    then show "bit (7::u32) i = bit (15::u32) i" by cases simp_all
  qed
  have h: "\<forall>j<1. \<forall>i<3. action_bit (at_offset (\<lambda>_. 7) (j * ta_chunks 3 * 1)) 1 i
                       = action_bit (at_offset (\<lambda>_. 15) (j * ta_chunks 3 * 1)) 1 i"
    using b by (auto simp: action_bit_def at_offset_def)
  have l: "list_all (\<lambda>i. action_bit (at_offset (\<lambda>_. 7) (0 * ta_chunks 3 * 1)) 1 i
                      = action_bit (at_offset (\<lambda>_. 15) (0 * ta_chunks 3 * 1)) 1 i) [0..<3]"
    using h by (simp add: list_all_iff)
  have d: "action_bit (\<lambda>_. 7) 1 3 \<noteq> action_bit (\<lambda>_. 15) 1 3"
    by (simp add: action_bit_def)
  have v: "cb_calculate_clause_outputs_predict (\<lambda>_. 15) 1 3 1 1 (\<lambda>_. 0) (\<lambda>_. 255) 0 = 1"
    by code_simp
  from tail_padding_never_read[of 3 1 "\<lambda>_. 7" 1 "\<lambda>_. 15" 1 "\<lambda>_. 0" "\<lambda>_. 255" "\<lambda>_. 255", OF _ h] l d v
  show ?thesis by simp
qed

text \<open>
  Claim C5. For a clause whose action bits at all literal positions \<open>i < F\<close> are zero,
  PredictEval returns 0 for any number of patches and any input, while every patch
  passes the UpdateEval test and UpdateEval returns 1 as soon as there is a patch. In
  general UpdateEval returns 1 exactly when some patch passes its test. For \<open>F = 4\<close>,
  one clause, one patch, three state bits, a zero action plane (word 2) and
  \<open>Xi = 1111\<close>, PredictEval writes 0 and UpdateEval writes 1.
\<close>

theorem all_exclude_rule:
  assumes "0 < F" and "\<forall>i<F. \<not> action_bit ta nsb i"
  shows "cb_calculate_clause_output_predict ta (ta_chunks F) nsb (tail_filter F) P Xi = 0
       \<and> (\<forall>p<P. masked_patch_output ta (ta_chunks F) nsb (tail_filter F) L Xi p)
       \<and> cb_calculate_clause_output_update ta (ta_chunks F) nsb (tail_filter F) P L Xi
           = (if 0 < P then 1 else 0)
       \<and> (\<forall>ta' K fltr. cb_calculate_clause_output_update ta' K nsb fltr P L Xi
              = (if \<exists>p<P. masked_patch_output ta' K nsb fltr L Xi p then 1 else 0))
       \<and> (\<forall>ta4 out L4 Xi4. ta4 2 = 0 \<and> Xi4 0 = 15 \<longrightarrow>
              cb_calculate_clause_outputs_predict ta4 1 4 3 1 out Xi4 0 = 0
            \<and> cb_calculate_clause_outputs_update ta4 1 4 3 1 out L4 Xi4 0 = 1)"
proof -
  have z: "\<forall>i<F. action_bit ta nsb i = action_bit (\<lambda>_. 0) nsb i"
    using assms(2) by (simp add: action_bit_def)
  have n: "\<And>k. k \<in> set [0..<ta_chunks F - 1] \<Longrightarrow> ta (k * nsb + nsb - 1) = 0"
    using agree_nontail[OF z] by simp
  have t: "ta ((ta_chunks F - 1) * nsb + nsb - 1) AND tail_filter F = 0"
    using agree_tail[OF z assms(1)] by simp
  have ae: "all_exclude_clause ta (ta_chunks F) nsb (tail_filter F)"
    unfolding all_exclude_clause_def using n t by blast
  have 1: "cb_calculate_clause_output_predict ta (ta_chunks F) nsb (tail_filter F) P Xi = 0"
    unfolding cb_calculate_clause_output_predict_def predict_patches_iff using ae by simp
  have r: "\<And>(w::u32) X f. w AND X AND f = (w AND f) AND X" by (simp add: ac_simps)
  have m: "\<And>p. masked_patch_output ta (ta_chunks F) nsb (tail_filter F) L Xi p"
    unfolding masked_patch_output_def masked_chunks_iff Let_def r t using n by simp
  have 2: "\<forall>p<P. masked_patch_output ta (ta_chunks F) nsb (tail_filter F) L Xi p"
    using m by simp
  have 3: "cb_calculate_clause_output_update ta (ta_chunks F) nsb (tail_filter F) P L Xi
           = (if 0 < P then 1 else 0)"
    unfolding cb_calculate_clause_output_update_def update_patches_iff using m by auto
  have 4: "\<forall>ta' K fltr. cb_calculate_clause_output_update ta' K nsb fltr P L Xi
              = (if \<exists>p<P. masked_patch_output ta' K nsb fltr L Xi p then 1 else 0)"
    unfolding cb_calculate_clause_output_update_def update_patches_iff by auto
  have 5: "\<forall>ta4 out L4 Xi4. ta4 2 = 0 \<and> Xi4 0 = 15 \<longrightarrow>
              cb_calculate_clause_outputs_predict ta4 1 4 3 1 out Xi4 0 = 0
            \<and> cb_calculate_clause_outputs_update ta4 1 4 3 1 out L4 Xi4 0 = 1"
  proof (intro allI impI, elim conjE)
    fix ta4 out :: store and L4 Xi4 :: store
    assume "ta4 2 = 0" and x: "Xi4 0 = 15"
    then have a: "ta4 (Suc (Suc 0)) = 0" by (simp add: numeral_2_eq_2)
    have f: "tail_filter 4 = 15" by (simp add: tail_filter_def)
    have k: "ta_chunks 4 = 1" by (simp add: ta_chunks_def)
    show "cb_calculate_clause_outputs_predict ta4 1 4 3 1 out Xi4 0 = 0
            \<and> cb_calculate_clause_outputs_update ta4 1 4 3 1 out L4 Xi4 0 = 1"
      by (simp add: cb_calculate_clause_outputs_predict_def cb_calculate_clause_outputs_update_def
          cb_calculate_clause_output_predict_def cb_calculate_clause_output_update_def
          masked_patch_output_def at_offset_def Let_def f k a x)
  qed
  from 1 2 3 4 5 show ?thesis by blast
qed

theorem all_exclude_rule_witness:
  "(0::nat) < 4 \<and> list_all (\<lambda>i. \<not> action_bit (\<lambda>_. 0) 3 i) [0..<4]
   \<and> cb_calculate_clause_output_predict (\<lambda>_. 0) (ta_chunks 4) 3 (tail_filter 4) 1 (\<lambda>_. 15) = 0
   \<and> masked_patch_output (\<lambda>_. 0) (ta_chunks 4) 3 (tail_filter 4) (\<lambda>_. 15) (\<lambda>_. 15) 0
   \<and> cb_calculate_clause_output_update (\<lambda>_. 0) (ta_chunks 4) 3 (tail_filter 4) 1 (\<lambda>_. 15) (\<lambda>_. 15) = 1
   \<and> cb_calculate_clause_outputs_predict (\<lambda>_. 0) 1 4 3 1 (\<lambda>_. 0) (\<lambda>_. 15) 0 = 0
   \<and> cb_calculate_clause_outputs_update (\<lambda>_. 0) 1 4 3 1 (\<lambda>_. 0) (\<lambda>_. 15) (\<lambda>_. 15) 0 = 1"
proof -
  have h: "\<forall>i<4. \<not> action_bit (\<lambda>_. 0) 3 i" by (simp add: action_bit_def)
  have l: "list_all (\<lambda>i. \<not> action_bit (\<lambda>_. 0) 3 i) [0..<4]" using h by (simp add: list_all_iff)
  from all_exclude_rule[of 4 "\<lambda>_. 0" 3 1 "\<lambda>_. 15" "\<lambda>_. 15", OF _ h] l
  show ?thesis by simp
qed

text \<open>
  Claim C1, evaluated. \<open>F = 2\<close>, one clause, one patch, one state bit. Literal 0 is
  included (action word 1), it is masked out (\<open>literal_active = 2\<close>), and it is false in
  the patch (\<open>Xi = 0\<close>). UpdateEval writes 0 and the Feedback-mode evaluation reports no
  matching patch, because \<^verbatim>\<open>!literal_active[k]\<close> is the word 0 here. With the bitwise
  complement the comparison of the chunk would hold (last conjunct).
\<close>

theorem masked_out_literal_fails_the_match:
  "\<not> bit (2::u32) 0 \<and> bit (1::u32) 0
   \<and> tail_filter 2 = 3 \<and> ta_chunks 2 = 1
   \<and> cb_calculate_clause_outputs_update (\<lambda>_. 1) 1 2 1 1 (\<lambda>_. 0) (\<lambda>_. 2) (\<lambda>_. 0) 0 = 0
   \<and> (\<forall>g. fst (cb_calculate_clause_output_feedback (\<lambda>_. 1) 1 1 3 1 (\<lambda>_. 2) (\<lambda>_. 0) g) = None)
   \<and> (1::u32) AND (0 OR NOT 2) AND 3 = 1 AND 3"
  by (simp add: cb_calculate_clause_outputs_update_def cb_calculate_clause_output_update_def
        cb_calculate_clause_output_feedback_def masked_patch_output_def lnot32_def
        tail_filter_def ta_chunks_def at_offset_def Let_def)

subsection \<open>Frames of \<^verbatim>\<open>cb_inc\<close> and \<^verbatim>\<open>cb_dec\<close>, and loops over chunks\<close>

lemma inc_carry_masked:
  "inc_carry bs base ta carry = (ta', c') \<Longrightarrow> \<not> bit carry i \<Longrightarrow>
   \<not> bit c' i \<and> bit (ta' a) i = bit (ta a) i"
proof (induction bs arbitrary: ta carry)
  case Nil then show ?case by simp
next
  case (Cons b bs)
  show ?case
  proof (cases "carry = 0")
    case True with Cons.prems show ?thesis by simp
  next
    case False
    with Cons.prems have r: "inc_carry bs base (ta(base + b := ta (base + b) XOR carry)) (ta (base + b) AND carry) = (ta', c')"
      by (simp add: Let_def)
    have "\<not> bit (ta (base + b) AND carry) i" using Cons.prems(2) by (simp add: bit_and_iff)
    from Cons.IH[OF r this] Cons.prems(2) show ?thesis by (auto simp: bit_xor_iff)
  qed
qed

lemma dec_carry_masked:
  "dec_carry bs base ta carry = (ta', c') \<Longrightarrow> \<not> bit carry i \<Longrightarrow>
   \<not> bit c' i \<and> bit (ta' a) i = bit (ta a) i"
proof (induction bs arbitrary: ta carry)
  case Nil then show ?case by simp
next
  case (Cons b bs)
  show ?case
  proof (cases "carry = 0")
    case True with Cons.prems show ?thesis by simp
  next
    case False
    with Cons.prems have r: "dec_carry bs base (ta(base + b := ta (base + b) XOR carry)) (NOT (ta (base + b)) AND carry) = (ta', c')"
      by (simp add: Let_def)
    have "\<not> bit (NOT (ta (base + b)) AND carry) i" using Cons.prems(2) by (simp add: bit_and_iff)
    from Cons.IH[OF r this] Cons.prems(2) show ?thesis by (auto simp: bit_xor_iff)
  qed
qed

lemma cb_inc_masked: "\<not> bit active i \<Longrightarrow> bit (cb_inc ta base active nsb a) i = bit (ta a) i"
proof -
  assume m: "\<not> bit active i"
  obtain ta1 c where r: "inc_carry [0..<nsb] base ta active = (ta1, c)" by (cases "inc_carry [0..<nsb] base ta active")
  from inc_carry_masked[OF r m] have c: "\<not> bit c i" and t: "bit (ta1 a) i = bit (ta a) i" by simp_all
  show ?thesis using c t by (simp add: cb_inc_def r fold_or_planes bit_or_iff)
qed

lemma cb_dec_masked: "\<not> bit active i \<Longrightarrow> bit (cb_dec ta base active nsb a) i = bit (ta a) i"
proof -
  assume m: "\<not> bit active i"
  obtain ta1 c where r: "dec_carry [0..<nsb] base ta active = (ta1, c)" by (cases "dec_carry [0..<nsb] base ta active")
  from dec_carry_masked[OF r m] have c: "\<not> bit c i" and t: "bit (ta1 a) i = bit (ta a) i" by simp_all
  show ?thesis using c t by (auto simp: cb_dec_def r fold_and_planes bit_and_iff bit_not_iff dest: bit_imp_le_length)
qed

lemma fold_frame:
  "(\<And>k t. k \<in> set ks \<Longrightarrow> f k t a = t a) \<Longrightarrow> fold f ks t a = t a"
  by (induction ks arbitrary: t) auto

lemma fold_lane_frame:
  "(\<And>k t. k \<in> set ks \<Longrightarrow> bit (f k t a) i = bit (t a) i) \<Longrightarrow> bit (fold f ks t a) i = bit (t a) i"
  by (induction ks arbitrary: t) auto

lemma counter_cong:
  "(\<And>a. base \<le> a \<Longrightarrow> a < base + nsb \<Longrightarrow> t1 a = t2 a) \<Longrightarrow> counter t1 base nsb i = counter t2 base nsb i"
  unfolding counter_def by (rule planes_val_cong) simp

text \<open>Stripes of different chunks, and the regions of different clauses, do not overlap.\<close>

lemma stripe_disjoint:
  "k \<noteq> k' \<Longrightarrow> cp + k * nsb \<le> a \<Longrightarrow> a < cp + k * nsb + nsb \<Longrightarrow> a < cp + k' * nsb \<or> cp + k' * nsb + nsb \<le> (a::nat)"
proof -
  assume n: "k \<noteq> k'" and l: "cp + k * nsb \<le> a" and u: "a < cp + k * nsb + nsb"
  show ?thesis
  proof (cases "k < k'")
    case True
    then have "Suc k \<le> k'" by simp
    then have "Suc k * nsb \<le> k' * nsb" by (rule mult_le_mono1)
    with u show ?thesis by simp
  next
    case False
    with n have "Suc k' \<le> k" by simp
    then have "Suc k' * nsb \<le> k * nsb" by (rule mult_le_mono1)
    with l show ?thesis by simp
  qed
qed

lemma stripe_in_region:
  "k < K \<Longrightarrow> j * K * nsb + k * nsb \<le> a \<Longrightarrow> a < j * K * nsb + k * nsb + nsb \<Longrightarrow>
   j * K * nsb \<le> a \<and> a < j * K * nsb + K * (nsb::nat)"
proof -
  assume k: "k < K" and l: "j * K * nsb + k * nsb \<le> a" and u: "a < j * K * nsb + k * nsb + nsb"
  from k have "Suc k \<le> K" by simp
  then have "Suc k * nsb \<le> K * nsb" by (rule mult_le_mono1)
  with l u show ?thesis by simp
qed

lemma region_disjoint:
  "j \<noteq> j' \<Longrightarrow> j * K * nsb \<le> a \<Longrightarrow> a < j * K * nsb + K * nsb \<Longrightarrow>
   a < j' * K * nsb \<or> j' * K * nsb + K * nsb \<le> (a::nat)"
  using stripe_disjoint[of j j' 0 "K * nsb" a] by (simp add: mult.assoc)


lemma fold_chunks_outside:
  assumes "\<And>k t. (a::nat) < cp + k * nsb \<or> cp + k * nsb + nsb \<le> a \<Longrightarrow> f k t a = t a"
    and "a < cp \<or> cp + K * nsb \<le> a"
  shows "fold f [0..<K] t a = t a"
proof (rule fold_frame)
  fix k t' assume "k \<in> set [0..<K]"
  then have "Suc k \<le> K" by simp
  then have "Suc k * nsb \<le> K * nsb" by (rule mult_le_mono1)
  with assms(2) have "a < cp + k * nsb \<or> cp + k * nsb + nsb \<le> a" by auto
  then show "f k t' a = t' a" by (rule assms(1))
qed

lemma fold_chunks_prefix:
  assumes "\<And>k t. (a::nat) < cp + k * nsb \<or> cp + k * nsb + nsb \<le> a \<Longrightarrow> f k t a = t a"
    and "a < cp \<or> cp + k * nsb \<le> a"
  shows "fold f [0..<k] t a = t a"
  using assms by (rule fold_chunks_outside)

lemma fold_chunks_other:
  assumes "\<And>k t. (a::nat) < cp + k * nsb \<or> cp + k * nsb + nsb \<le> a \<Longrightarrow> f k t a = t a"
    and "cp + k * nsb \<le> a" and "a < cp + k * nsb + nsb" and "k \<notin> set ks"
  shows "fold f ks t a = t a"
proof (rule fold_frame)
  fix k' t' assume "k' \<in> set ks"
  with assms(4) have "k \<noteq> k'" by auto
  from stripe_disjoint[OF this assms(2,3)] show "f k' t' a = t' a" by (rule assms(1))
qed

lemma fold_chunks_split:
  "k < K \<Longrightarrow> fold f [0..<K] t = fold f [Suc k..<K] (f k (fold f [0..<k] t))"
proof -
  assume "k < K"
  then have "[0..<K] = [0..<k] @ [k..<K]" and "[k..<K] = k # [Suc k..<K]"
    using upt_add_eq_append[of 0 k "K - k"] by (simp_all add: upt_conv_Cons)
  then show ?thesis by simp
qed

lemma fold_chunks_counter:
  assumes "\<And>k t a. (a::nat) < cp + k * nsb \<or> cp + k * nsb + nsb \<le> a \<Longrightarrow> f k t a = t a"
    and "k < K"
  shows "counter (fold f [0..<K] t) (cp + k * nsb) nsb i
       = counter (f k (fold f [0..<k] t)) (cp + k * nsb) nsb i"
  unfolding fold_chunks_split[OF assms(2)]
  by (rule counter_cong) (rule fold_chunks_other[where cp=cp and k=k and nsb=nsb], rule assms(1), simp_all)

lemma fold_chunks_lane:
  assumes "\<And>k t. (a::nat) < cp + k * nsb \<or> cp + k * nsb + nsb \<le> a \<Longrightarrow> f k t a = t a"
    and "\<And>t. bit (f k t a) i = bit (t a) i"
    and "cp + k * nsb \<le> a" and "a < cp + k * nsb + nsb"
  shows "bit (fold f ks t a) i = bit (t a) i"
proof (rule fold_lane_frame)
  fix k' t' assume "k' \<in> set ks"
  show "bit (f k' t' a) i = bit (t' a) i"
  proof (cases "k' = k")
    case True then show ?thesis by (simp add: assms(2))
  next
    case False
    then have "k \<noteq> k'" by simp
    from stripe_disjoint[OF this assms(3,4)] have "f k' t' a = t' a" by (rule assms(1))
    then show ?thesis by simp
  qed
qed

subsection \<open>Type II\<close>

lemma type_ii_chunk_outside:
  "a < cp + k * nsb \<or> cp + k * nsb + nsb \<le> a \<Longrightarrow> type_ii_chunk cp K nsb L Xi p k t a = t a"
  by (simp add: type_ii_chunk_def Let_def cb_inc_outside)

lemma type_ii_chunk_masked:
  "\<not> bit (L k) i \<Longrightarrow> bit (type_ii_chunk cp K nsb L Xi p k t a) i = bit (t a) i"
  by (simp add: type_ii_chunk_def Let_def cb_inc_masked bit_and_iff)

lemma type_ii_chunks_counter:
  assumes "k < K" and "i < 32"
  shows "counter (fold (type_ii_chunk cp K nsb L Xi p) [0..<K] t) (cp + k * nsb) nsb i
       = (if bit (L k AND NOT (Xi (p * K + k)) AND NOT (t (cp + k * nsb + nsb - 1))) i
          then min (counter t (cp + k * nsb) nsb i + 1) (2 ^ nsb - 1)
          else counter t (cp + k * nsb) nsb i)"
proof -
  let ?f = "type_ii_chunk cp K nsb L Xi p"
  let ?t = "fold ?f [0..<k] t"
  have pre: "\<And>a. a < cp \<or> cp + k * nsb \<le> a \<Longrightarrow> ?t a = t a"
    by (rule fold_chunks_prefix[where cp=cp and nsb=nsb]) (simp_all add: type_ii_chunk_outside)
  have "cp + k * nsb + nsb - 1 < cp \<or> cp + k * nsb \<le> cp + k * nsb + nsb - 1"
  proof (cases nsb)
    case 0 then show ?thesis by (cases cp) simp_all
  next
    case (Suc n) then show ?thesis by simp
  qed
  then have act: "?t (cp + k * nsb + nsb - 1) = t (cp + k * nsb + nsb - 1)"
    by (rule pre)
  have cnt: "counter ?t (cp + k * nsb) nsb i = counter t (cp + k * nsb) nsb i"
    by (rule counter_cong) (simp add: pre)
  have "counter (fold ?f [0..<K] t) (cp + k * nsb) nsb i = counter (?f k ?t) (cp + k * nsb) nsb i"
    by (rule fold_chunks_counter[OF _ assms(1)]) (rule type_ii_chunk_outside)
  also have "\<dots> = (if bit (L k AND NOT (Xi (p * K + k)) AND NOT (?t (cp + k * nsb + nsb - 1))) i
          then min (counter ?t (cp + k * nsb) nsb i + 1) (2 ^ nsb - 1)
          else counter ?t (cp + k * nsb) nsb i)"
    by (simp only: type_ii_chunk_def Let_def cb_inc_counter[OF assms(2)])
  finally show ?thesis by (simp only: act cnt)
qed

lemma fast_rand_used: "used (snd (fast_rand g)) = Suc (used g)"
  and fast_rand_draws: "draws (snd (fast_rand g)) = draws g"
  and fast_rand_value: "fst (fast_rand g) = draws g (used g)"
  by (simp_all add: fast_rand_def)

lemma counter_le: "counter t base nsb i \<le> 2 ^ nsb - 1"
  using planes_val_bound[of nsb t base i] unfolding counter_def by linarith

lemma feedback_eval_used:
  "cb_calculate_clause_output_feedback t K nsb fltr P L Xi g = (co, g') \<Longrightarrow>
   draws g' = draws g \<and> used g \<le> used g' \<and> used g' \<le> Suc (used g)"
  by (auto simp: cb_calculate_clause_output_feedback_def Let_def fast_rand_def split: if_splits)

lemma feedback_eval_patch:
  "cb_calculate_clause_output_feedback t K nsb fltr P L Xi g = (Some p, g') \<Longrightarrow>
   p < P \<and> masked_patch_output t K nsb fltr L Xi p \<and> g' = snd (fast_rand g)"
proof -
  assume a: "cb_calculate_clause_output_feedback t K nsb fltr P L Xi g = (Some p, g')"
  let ?ms = "filter (masked_patch_output t K nsb fltr L Xi) [0..<P]"
  from a have n: "?ms \<noteq> []" and p: "p = ?ms ! (unat (fst (fast_rand g)) mod length ?ms)" and g: "g' = snd (fast_rand g)"
    by (auto simp: cb_calculate_clause_output_feedback_def feedback_patches_filter Let_def split_beta split: if_splits)
  from n have "unat (fst (fast_rand g)) mod length ?ms < length ?ms" by simp
  then have "p \<in> set ?ms" unfolding p by (rule nth_mem)
  with g show ?thesis by simp
qed

lemma feedback_eval_none:
  "cb_calculate_clause_output_feedback t K nsb fltr P L Xi g = (None, g') \<Longrightarrow>
   g' = g \<and> (\<forall>p<P. \<not> masked_patch_output t K nsb fltr L Xi p)"
  by (auto simp: cb_calculate_clause_output_feedback_def feedback_patches_filter Let_def split_beta
        filter_empty_conv split: if_splits)


lemma type_ii_clause_eq:
  "type_ii_clause F nsb P ex ca L Xi j (ta, g) =
     (if ex (fst (fast_rand g)) \<or> ca j = 0 then (ta, snd (fast_rand g))
      else let r = cb_calculate_clause_output_feedback (at_offset ta (j * ta_chunks F * nsb)) (ta_chunks F) nsb
                  (tail_filter F) P L Xi (snd (fast_rand g))
           in (case fst r of
                 Some p \<Rightarrow> fold (type_ii_chunk (j * ta_chunks F * nsb) (ta_chunks F) nsb L Xi p) [0..<ta_chunks F] ta
               | None \<Rightarrow> ta, snd r))"
  by (simp add: type_ii_clause_def Let_def split_beta split: option.splits)

lemma type_ii_clause_outside:
  assumes "a < j * ta_chunks F * nsb \<or> j * ta_chunks F * nsb + ta_chunks F * nsb \<le> a"
  shows "fst (type_ii_clause F nsb P ex ca L Xi j (ta, g)) a = ta a"
proof -
  have "\<And>p. fold (type_ii_chunk (j * ta_chunks F * nsb) (ta_chunks F) nsb L Xi p) [0..<ta_chunks F] ta a = ta a"
    by (rule fold_chunks_outside[where cp="j * ta_chunks F * nsb" and nsb=nsb])
       (simp_all add: type_ii_chunk_outside assms)
  then show ?thesis
    by (simp add: type_ii_clause_eq Let_def split: option.splits)
qed

lemma type_ii_clause_counter_mono:
  assumes "k < ta_chunks F" and "i < 32"
  shows "counter ta (j' * ta_chunks F * nsb + k * nsb) nsb i
       \<le> counter (fst (type_ii_clause F nsb P ex ca L Xi j (ta, g))) (j' * ta_chunks F * nsb + k * nsb) nsb i"
proof (cases "j' = j")
  case True
  have b: "counter ta (j * ta_chunks F * nsb + k * nsb) nsb i \<le> 2 ^ nsb - 1"
    by (rule counter_le)
  have "\<And>p. counter ta (j * ta_chunks F * nsb + k * nsb) nsb i
       \<le> counter (fold (type_ii_chunk (j * ta_chunks F * nsb) (ta_chunks F) nsb L Xi p) [0..<ta_chunks F] ta)
            (j * ta_chunks F * nsb + k * nsb) nsb i"
    using b by (simp add: type_ii_chunks_counter[OF assms])
  then show ?thesis unfolding True
    by (simp add: type_ii_clause_eq Let_def split: option.splits)
next
  case False
  have "counter (fst (type_ii_clause F nsb P ex ca L Xi j (ta, g))) (j' * ta_chunks F * nsb + k * nsb) nsb i
      = counter ta (j' * ta_chunks F * nsb + k * nsb) nsb i"
  proof (rule counter_cong)
    fix a assume l: "j' * ta_chunks F * nsb + k * nsb \<le> a" and u: "a < j' * ta_chunks F * nsb + k * nsb + nsb"
    from stripe_in_region[OF assms(1) l u] region_disjoint[OF False, of "ta_chunks F" nsb a]
    have "a < j * ta_chunks F * nsb \<or> j * ta_chunks F * nsb + ta_chunks F * nsb \<le> a" by blast
    then show "fst (type_ii_clause F nsb P ex ca L Xi j (ta, g)) a = ta a"
      by (rule type_ii_clause_outside)
  qed
  then show ?thesis by simp
qed

lemma fold_mono_fst:
  fixes m :: "store \<Rightarrow> nat"
  assumes "\<And>j t g. m t \<le> m (fst (f j (t, g)))"
  shows "m t \<le> m (fst (fold f js (t, g)))"
proof (induction js arbitrary: t g)
  case Nil show ?case by simp
next
  case (Cons j js)
  obtain t1 g1 where r: "f j (t, g) = (t1, g1)" by (cases "f j (t, g)")
  have "m t \<le> m t1" using assms[of t j g] r by simp
  also have "m t1 \<le> m (fst (fold f js (t1, g1)))" by (rule Cons.IH)
  finally show ?case by (simp add: r)
qed


subsection \<open>Type I\<close>

lemma resample_used:
  assumes a: "resample fb F f g = Some y"
  shows "used g \<le> used (snd y) \<and> draws (snd y) = draws g"
proof (rule resample.raw_induct[where P = "\<lambda>fb F f g y. used g \<le> used (snd y) \<and> draws (snd y) = draws g", OF _ a])
  fix r :: "store \<Rightarrow> nat \<Rightarrow> nat \<Rightarrow> prng \<Rightarrow> (nat \<times> prng) option" and fb F f g y
  assume ih: "\<And>fb F f g y. r fb F f g = Some y \<Longrightarrow> used g \<le> used (snd y) \<and> draws (snd y) = draws g"
    and b: "(if fb (f div 32) AND push_bit (f mod 32) 1 \<noteq> 0
             then r fb F (unat (fst (fast_rand g)) mod F) (snd (fast_rand g))
             else Some (f, g)) = Some y"
  show "used g \<le> used (snd y) \<and> draws (snd y) = draws g"
  proof (cases "fb (f div 32) AND push_bit (f mod 32) 1 \<noteq> 0")
    case True
    with b have "r fb F (unat (fst (fast_rand g)) mod F) (snd (fast_rand g)) = Some y" by simp
    from ih[OF this] show ?thesis by (simp add: fast_rand_def)
  next
    case False
    with b show ?thesis by auto
  qed
qed

lemma random_bits_used:
  "random_bits n F fb g = Some (fb', g') \<Longrightarrow> used g \<le> used g' \<and> draws g' = draws g"
proof (induction n arbitrary: fb g)
  case 0 then show ?case by simp
next
  case (Suc n)
  from Suc.prems obtain f g2 where
    r: "resample fb F (unat (fst (fast_rand g)) mod F) (snd (fast_rand g)) = Some (f, g2)"
    and n: "random_bits n F (fb(f div 32 := fb (f div 32) OR push_bit (f mod 32) 1)) g2 = Some (fb', g')"
    by (auto simp: split_beta split: option.splits)
  from resample_used[OF r] Suc.IH[OF n] show ?case by (simp add: fast_rand_def)
qed

lemma normal_used: "used (snd (normal g)) = used g" "draws (snd (normal g)) = draws g"
  by (simp_all add: normal_def)

lemma cb_initialize_random_streams_used:
  "cb_initialize_random_streams fb F K g = Some (fb', g') \<Longrightarrow> used g \<le> used g' \<and> draws g' = draws g"
  using random_bits_used[of _ F _ "snd (normal g)" fb' g']
  by (auto simp: cb_initialize_random_streams_def Let_def split_beta normal_used)


lemma type_ia_chunk_outside:
  "a < cp + k * nsb \<or> cp + k * nsb + nsb \<le> a \<Longrightarrow> type_ia_chunk cp K nsb boost fb L Xi p k t a = t a"
  by (simp add: type_ia_chunk_def Let_def cb_inc_outside cb_dec_outside)

lemma type_ia_chunk_masked:
  "\<not> bit (L k) i \<Longrightarrow> bit (type_ia_chunk cp K nsb boost fb L Xi p k t a) i = bit (t a) i"
  by (simp add: type_ia_chunk_def Let_def cb_inc_masked cb_dec_masked bit_and_iff)

lemma type_ib_chunk_outside:
  "a < cp + k * nsb \<or> cp + k * nsb + nsb \<le> a \<Longrightarrow> type_ib_chunk cp nsb fb L k t a = t a"
  by (simp add: type_ib_chunk_def Let_def cb_dec_outside)

lemma type_ib_chunk_masked:
  "\<not> bit (L k) i \<Longrightarrow> bit (type_ib_chunk cp nsb fb L k t a) i = bit (t a) i"
  by (simp add: type_ib_chunk_def Let_def cb_dec_masked bit_and_iff)

lemma type_ib_chunks_counter:
  assumes "k < K" and "i < 32"
  shows "counter (fold (type_ib_chunk cp nsb fb L) [0..<K] t) (cp + k * nsb) nsb i
       = (if bit (L k AND fb k) i then counter t (cp + k * nsb) nsb i - 1 else counter t (cp + k * nsb) nsb i)"
proof -
  let ?f = "type_ib_chunk cp nsb fb L"
  let ?t = "fold ?f [0..<k] t"
  have pre: "\<And>a. a < cp \<or> cp + k * nsb \<le> a \<Longrightarrow> ?t a = t a"
    by (rule fold_chunks_prefix[where cp=cp and nsb=nsb]) (simp_all add: type_ib_chunk_outside)
  have cnt: "counter ?t (cp + k * nsb) nsb i = counter t (cp + k * nsb) nsb i"
    by (rule counter_cong) (simp add: pre)
  have "counter (fold ?f [0..<K] t) (cp + k * nsb) nsb i = counter (?f k ?t) (cp + k * nsb) nsb i"
    by (rule fold_chunks_counter[OF _ assms(1)]) (rule type_ib_chunk_outside)
  also have "\<dots> = (if bit (L k AND fb k) i then counter ?t (cp + k * nsb) nsb i - 1
                     else counter ?t (cp + k * nsb) nsb i)"
    by (simp only: type_ib_chunk_def Let_def cb_dec_counter[OF assms(2)])
  finally show ?thesis by (simp only: cnt)
qed

lemma type_i_clause_eq:
  "type_i_clause F nsb P ex boost ca L Xi j (ta, fb, g) =
     (if ex (fst (fast_rand g)) \<or> ca j = 0 then Some (ta, fb, snd (fast_rand g))
      else let r = cb_calculate_clause_output_feedback (at_offset ta (j * ta_chunks F * nsb)) (ta_chunks F) nsb
                  (tail_filter F) P L Xi (snd (fast_rand g))
           in case cb_initialize_random_streams fb F (ta_chunks F) (snd r) of
                None \<Rightarrow> None
              | Some m \<Rightarrow>
                  Some (case fst r of
                          Some p \<Rightarrow> fold (type_ia_chunk (j * ta_chunks F * nsb) (ta_chunks F) nsb boost (fst m) L Xi p)
                                     [0..<ta_chunks F] ta
                        | None \<Rightarrow> fold (type_ib_chunk (j * ta_chunks F * nsb) nsb (fst m) L) [0..<ta_chunks F] ta,
                        fst m, snd m))"
  by (simp add: type_i_clause_def Let_def split_beta split: option.splits)

lemma type_i_clause_outside:
  assumes "type_i_clause F nsb P ex boost ca L Xi j (ta, fb, g) = Some (ta', fb', g')"
    and "a < j * ta_chunks F * nsb \<or> j * ta_chunks F * nsb + ta_chunks F * nsb \<le> a"
  shows "ta' a = ta a"
proof -
  have 1: "\<And>p m. fold (type_ia_chunk (j * ta_chunks F * nsb) (ta_chunks F) nsb boost m L Xi p) [0..<ta_chunks F] ta a = ta a"
    by (rule fold_chunks_outside[where cp="j * ta_chunks F * nsb" and nsb=nsb])
       (simp_all add: type_ia_chunk_outside assms(2))
  have 2: "\<And>m. fold (type_ib_chunk (j * ta_chunks F * nsb) nsb m L) [0..<ta_chunks F] ta a = ta a"
    by (rule fold_chunks_outside[where cp="j * ta_chunks F * nsb" and nsb=nsb])
       (simp_all add: type_ib_chunk_outside assms(2))
  from assms(1) show ?thesis
    by (auto simp: type_i_clause_eq Let_def 1 2 split: option.splits if_splits)
qed

lemma type_i_clause_inactive:
  "ca j = 0 \<Longrightarrow> type_i_clause F nsb P ex boost ca L Xi j (ta, fb, g) = Some (ta, fb, snd (fast_rand g))"
  by (simp add: type_i_clause_eq)

lemma type_i_clause_used:
  assumes "type_i_clause F nsb P ex boost ca L Xi j (ta, fb, g) = Some (ta', fb', g')"
  shows "Suc (used g) \<le> used g' \<and> draws g' = draws g"
proof (cases "ex (fst (fast_rand g)) \<or> ca j = 0")
  case True
  with assms show ?thesis by (auto simp: type_i_clause_eq fast_rand_def)
next
  case False
  obtain co g2 where r: "cb_calculate_clause_output_feedback (at_offset ta (j * ta_chunks F * nsb)) (ta_chunks F) nsb
                  (tail_filter F) P L Xi (snd (fast_rand g)) = (co, g2)"
    by (cases "cb_calculate_clause_output_feedback (at_offset ta (j * ta_chunks F * nsb)) (ta_chunks F) nsb
                  (tail_filter F) P L Xi (snd (fast_rand g))")
  from assms False r obtain fb1 where i: "cb_initialize_random_streams fb F (ta_chunks F) g2 = Some (fb1, g')"
    by (auto simp: type_i_clause_eq Let_def split: option.splits)
  from feedback_eval_used[OF r] cb_initialize_random_streams_used[OF i]
  show ?thesis by (simp add: fast_rand_def)
qed


lemma type_i_clauses_rel:
  assumes "type_i_clauses F nsb P ex boost ca L Xi js s = Some s'"
    and "\<And>j s s1. j \<in> set js \<Longrightarrow> type_i_clause F nsb P ex boost ca L Xi j s = Some s1 \<Longrightarrow> R s s1"
    and "\<And>s. R s s"
    and "\<And>a b c. R a b \<Longrightarrow> R b c \<Longrightarrow> R a c"
  shows "R s s'"
  using assms(1,2)
proof (induction js arbitrary: s)
  case Nil then show ?case by (simp add: assms(3))
next
  case (Cons j js)
  from Cons.prems(1) obtain s1 where 1: "type_i_clause F nsb P ex boost ca L Xi j s = Some s1"
    and 2: "type_i_clauses F nsb P ex boost ca L Xi js s1 = Some s'"
    by (auto split: option.splits)
  have "R s s1" by (rule Cons.prems(2)[OF _ 1]) simp
  moreover have "R s1 s'" by (rule Cons.IH[OF 2]) (rule Cons.prems(2), simp_all)
  ultimately show ?case by (rule assms(4))
qed

lemma fold_rel:
  assumes "\<And>j s. j \<in> set js \<Longrightarrow> R s (f j s)"
    and "\<And>s. R s s"
    and "\<And>a b c. R a b \<Longrightarrow> R b c \<Longrightarrow> R a c"
  shows "R s (fold f js s)"
  using assms(1)
proof (induction js arbitrary: s)
  case Nil then show ?case by (simp add: assms(2))
next
  case (Cons j js)
  have "R s (f j s)" by (rule Cons.prems) simp
  moreover have "R (f j s) (fold f js (f j s))" by (rule Cons.IH) (rule Cons.prems, simp)
  ultimately show ?case by (simp add: assms(3))
qed

lemma type_i_clause_lane:
  assumes "type_i_clause F nsb P ex boost ca L Xi j (ta, fb, g) = Some (ta', fb', g')"
    and "k < ta_chunks F"
    and "j0 * ta_chunks F * nsb + k * nsb \<le> a" and "a < j0 * ta_chunks F * nsb + k * nsb + nsb"
    and "\<not> bit (L k) i"
  shows "bit (ta' a) i = bit (ta a) i"
proof (cases "j0 = j")
  case True
  have 1: "\<And>p m. bit (fold (type_ia_chunk (j * ta_chunks F * nsb) (ta_chunks F) nsb boost m L Xi p) [0..<ta_chunks F] ta a) i
              = bit (ta a) i"
    by (rule fold_chunks_lane[where cp="j * ta_chunks F * nsb" and nsb=nsb and k=k])
       (use assms(3,4,5) True in \<open>simp_all add: type_ia_chunk_outside type_ia_chunk_masked\<close>)
  have 2: "\<And>m. bit (fold (type_ib_chunk (j * ta_chunks F * nsb) nsb m L) [0..<ta_chunks F] ta a) i = bit (ta a) i"
    by (rule fold_chunks_lane[where cp="j * ta_chunks F * nsb" and nsb=nsb and k=k])
       (use assms(3,4,5) True in \<open>simp_all add: type_ib_chunk_outside type_ib_chunk_masked\<close>)
  from assms(1) show ?thesis
    by (auto simp: type_i_clause_eq Let_def 1 2 split: option.splits if_splits)
next
  case False
  from stripe_in_region[OF assms(2,3,4)] region_disjoint[OF False, of "ta_chunks F" nsb a]
  have "a < j * ta_chunks F * nsb \<or> j * ta_chunks F * nsb + ta_chunks F * nsb \<le> a" by blast
  from type_i_clause_outside[OF assms(1) this] show ?thesis by simp
qed

lemma type_ii_clause_lane:
  assumes "k < ta_chunks F"
    and "j0 * ta_chunks F * nsb + k * nsb \<le> a" and "a < j0 * ta_chunks F * nsb + k * nsb + nsb"
    and "\<not> bit (L k) i"
  shows "bit (fst (type_ii_clause F nsb P ex ca L Xi j (ta, g)) a) i = bit (ta a) i"
proof (cases "j0 = j")
  case True
  have 1: "\<And>p. bit (fold (type_ii_chunk (j * ta_chunks F * nsb) (ta_chunks F) nsb L Xi p) [0..<ta_chunks F] ta a) i
              = bit (ta a) i"
    by (rule fold_chunks_lane[where cp="j * ta_chunks F * nsb" and nsb=nsb and k=k])
       (use assms(2,3,4) True in \<open>simp_all add: type_ii_chunk_outside type_ii_chunk_masked\<close>)
  show ?thesis
    by (simp add: type_ii_clause_eq Let_def 1 split: option.splits)
next
  case False
  from stripe_in_region[OF assms(1,2,3)] region_disjoint[OF False, of "ta_chunks F" nsb a]
  have "a < j * ta_chunks F * nsb \<or> j * ta_chunks F * nsb + ta_chunks F * nsb \<le> a" by blast
  from type_ii_clause_outside[OF this] show ?thesis by simp
qed

lemma type_ii_clause_used:
  "Suc (used g) \<le> used (snd (type_ii_clause F nsb P ex ca L Xi j (ta, g)))
   \<and> draws (snd (type_ii_clause F nsb P ex ca L Xi j (ta, g))) = draws g"
proof (cases "ex (fst (fast_rand g)) \<or> ca j = 0")
  case True
  then show ?thesis by (auto simp: type_ii_clause_eq fast_rand_def)
next
  case False
  obtain co g2 where r: "cb_calculate_clause_output_feedback (at_offset ta (j * ta_chunks F * nsb)) (ta_chunks F) nsb
                  (tail_filter F) P L Xi (snd (fast_rand g)) = (co, g2)"
    by (cases "cb_calculate_clause_output_feedback (at_offset ta (j * ta_chunks F * nsb)) (ta_chunks F) nsb
                  (tail_filter F) P L Xi (snd (fast_rand g))")
  from feedback_eval_used[OF r] False r
  show ?thesis by (simp add: type_ii_clause_eq Let_def fast_rand_def)
qed

lemma type_ii_clause_inactive:
  "ca j = 0 \<Longrightarrow> type_ii_clause F nsb P ex ca L Xi j (ta, g) = (ta, snd (fast_rand g))"
  by (simp add: type_ii_clause_eq)

lemma snd_fast_rand: "snd (fast_rand g) = g\<lparr>used := Suc (used g)\<rparr>"
  by (simp add: fast_rand_def)

lemma type_i_clauses_all_inactive:
  "\<forall>j\<in>set js. ca j = 0 \<Longrightarrow>
   type_i_clauses F nsb P ex boost ca L Xi js (ta, fb, g) = Some (ta, fb, g\<lparr>used := used g + length js\<rparr>)"
  by (induction js arbitrary: g) (simp_all add: type_i_clause_inactive snd_fast_rand)

lemma type_ii_clauses_all_inactive:
  "\<forall>j\<in>set js. ca j = 0 \<Longrightarrow>
   fold (type_ii_clause F nsb P ex ca L Xi) js (ta, g) = (ta, g\<lparr>used := used g + length js\<rparr>)"
  by (induction js arbitrary: g) (simp_all add: type_ii_clause_inactive snd_fast_rand)

lemma type_i_clauses_used:
  "type_i_clauses F nsb P ex boost ca L Xi js (ta, fb, g) = Some (ta', fb', g') \<Longrightarrow>
   used g + length js \<le> used g' \<and> draws g' = draws g"
proof (induction js arbitrary: ta fb g)
  case Nil then show ?case by simp
next
  case (Cons j js)
  from Cons.prems obtain t1 f1 g1 where 1: "type_i_clause F nsb P ex boost ca L Xi j (ta, fb, g) = Some (t1, f1, g1)"
    and 2: "type_i_clauses F nsb P ex boost ca L Xi js (t1, f1, g1) = Some (ta', fb', g')"
    by (auto split: option.splits)
  from type_i_clause_used[OF 1] Cons.IH[OF 2] show ?case by simp
qed

lemma type_ii_clauses_used:
  "used g + length js \<le> used (snd (fold (type_ii_clause F nsb P ex ca L Xi) js (ta, g)))
   \<and> draws (snd (fold (type_ii_clause F nsb P ex ca L Xi) js (ta, g))) = draws g"
proof (induction js arbitrary: ta g)
  case Nil show ?case by simp
next
  case (Cons j js)
  obtain t1 g1 where 1: "type_ii_clause F nsb P ex ca L Xi j (ta, g) = (t1, g1)"
    by (cases "type_ii_clause F nsb P ex ca L Xi j (ta, g)")
  from type_ii_clause_used[of g F nsb P ex ca L Xi j ta] 1 Cons.IH[of g1 t1] show ?case by simp
qed

subsection \<open>Type III\<close>

lemma floor_log2_less: "0 < m \<Longrightarrow> n < 2 ^ m \<Longrightarrow> floor_log2 n < m"
proof (induction n arbitrary: m rule: floor_log2.induct)
  case (1 n)
  show ?case
  proof (cases "n < 2")
    case True
    with "1.prems" show ?thesis by (simp add: floor_log2.simps[of n])
  next
    case False
    obtain m' where m: "m = Suc m'" using "1.prems"(1) by (cases m) auto
    from False "1.prems"(2) m have "m' \<noteq> 0" by (cases m') auto
    then have p: "0 < m'" by simp
    from "1.prems"(2) m have "n div 2 < 2 ^ m'" by auto
    from "1.IH"[OF False p this] False m show ?thesis by (simp add: floor_log2.simps[of n])
  qed
qed

lemma log2_u32_less: "log2_u32 w < 32"
  unfolding log2_u32_def using floor_log2_less[of 32 "unat w"] unsigned_less[of w] by simp

lemma offending_chunks_id:
  "offending_chunks ta K nsb L Xi patch ks (mx, al, id0) = (mx', al', id') \<Longrightarrow>
   (al \<longrightarrow> id0 < 32) \<Longrightarrow> (al' \<longrightarrow> id' < 32)"
proof (induction ks arbitrary: mx al id0)
  case Nil then show ?case by simp
next
  case (Cons k ks)
  let ?off = "(ta (k * nsb + nsb - 1) AND (Xi (patch * K + k) OR NOT (L k))) XOR ta (k * nsb + nsb - 1)"
  consider (multi) "?off AND (?off - 1) > 0"
    | (one_first) "\<not> ?off AND (?off - 1) > 0" "?off \<noteq> 0" "\<not> al"
    | (one_second) "\<not> ?off AND (?off - 1) > 0" "?off \<noteq> 0" "al"
    | (none) "\<not> ?off AND (?off - 1) > 0" "?off = 0" by blast
  then show ?case
  proof cases
    case multi with Cons.prems show ?thesis by (simp add: Let_def)
  next
    case one_first
    with Cons.prems(1) have "offending_chunks ta K nsb L Xi patch ks (mx, True, log2_u32 ?off) = (mx', al', id')"
      by (simp add: Let_def)
    from Cons.IH[OF this] show ?thesis by (simp add: log2_u32_less)
  next
    case one_second with Cons.prems show ?thesis by (simp add: Let_def)
  next
    case none
    with Cons.prems(1) have "offending_chunks ta K nsb L Xi patch ks (mx, al, id0) = (mx', al', id')"
      by (simp add: Let_def)
    from Cons.IH[OF this Cons.prems(2)] show ?thesis .
  qed
qed

lemma offending_patches_candidates:
  "(\<forall>c\<in>set cands. c < 32) \<Longrightarrow> \<forall>c\<in>set (offending_patches ta K nsb fltr L Xi ps id0 cands). c < 32"
proof (induction ps arbitrary: id0 cands)
  case Nil then show ?case by simp
next
  case (Cons p ps)
  obtain mx al id1 where r: "offending_chunks ta K nsb L Xi p [0..<K - 1] (True, False, id0) = (mx, al, id1)"
    by (cases "offending_chunks ta K nsb L Xi p [0..<K - 1] (True, False, id0)") auto
  from offending_chunks_id[OF r] have i: "al \<longrightarrow> id1 < 32" by simp
  let ?off = "(ta ((K - 1) * nsb + nsb - 1) AND (Xi (p * K + K - 1) OR NOT (L (K - 1))) AND fltr)
                XOR (ta ((K - 1) * nsb + nsb - 1) AND fltr)"
  have step: "offending_patches ta K nsb fltr L Xi (p # ps) id0 cands =
      (if ?off AND (?off - 1) > 0 then cands
       else if ?off \<noteq> 0
       then (if \<not> al then offending_patches ta K nsb fltr L Xi ps (log2_u32 ?off)
                            (if mx then cands @ [log2_u32 ?off] else cands)
             else cands)
       else offending_patches ta K nsb fltr L Xi ps id1 (if mx \<and> al then cands @ [id1] else cands))"
    by (simp only: offending_patches.simps r prod.case Let_def)
  have a: "\<forall>c\<in>set (if mx then cands @ [log2_u32 ?off] else cands). c < 32"
    using Cons.prems by (simp add: log2_u32_less)
  have b: "\<forall>c\<in>set (if mx \<and> al then cands @ [id1] else cands). c < 32"
    using Cons.prems i by simp
  show ?case unfolding step using Cons.IH[OF a] Cons.IH[OF b] Cons.prems by simp
qed

lemma single_false_literal_range:
  "cb_calculate_clause_output_single_false_literal ta K nsb fltr P L Xi g = (r, g') \<Longrightarrow>
   (r = - 1 \<or> (0 \<le> r \<and> r < 32)) \<and> used g \<le> used g' \<and> draws g' = draws g"
proof -
  assume a: "cb_calculate_clause_output_single_false_literal ta K nsb fltr P L Xi g = (r, g')"
  let ?c = "offending_patches ta K nsb fltr L Xi [0..<P] 0 []"
  have c: "\<forall>c\<in>set ?c. c < 32" by (rule offending_patches_candidates) simp
  show ?thesis
  proof (cases "length ?c > 0")
    case True
    then have "unat (fst (fast_rand g)) mod length ?c < length ?c" by simp
    then have "?c ! (unat (fst (fast_rand g)) mod length ?c) \<in> set ?c" by (rule nth_mem)
    with c have "?c ! (unat (fst (fast_rand g)) mod length ?c) < 32" by blast
    with a True show ?thesis
      by (auto simp: cb_calculate_clause_output_single_false_literal_def Let_def split_beta fast_rand_def)
  next
    case False
    with a show ?thesis
      by (auto simp: cb_calculate_clause_output_single_false_literal_def Let_def)
  qed
qed

lemma type_iii_ta_dec_outside:
  "a < cp + k * nsb \<or> cp + k * nsb + nsb \<le> a \<Longrightarrow> type_iii_ta_dec cp cpi nsb nsbi ind L k t a = t a"
  by (simp add: type_iii_ta_dec_def Let_def cb_dec_outside)

lemma type_iii_ta_dec_masked:
  "\<not> bit (L k) i \<Longrightarrow> bit (type_iii_ta_dec cp cpi nsb nsbi ind L k t a) i = bit (t a) i"
  by (simp add: type_iii_ta_dec_def Let_def cb_dec_masked bit_and_iff)

lemma type_iii_ta_dec_counter:
  assumes "k < K" and "i < 32"
  shows "counter (fold (type_iii_ta_dec cp cpi nsb nsbi ind L) [0..<K] t) (cp + k * nsb) nsb i
       = (if bit (L k AND NOT (ind (cpi + k * nsbi + nsbi - 1))) i
          then counter t (cp + k * nsb) nsb i - 1 else counter t (cp + k * nsb) nsb i)"
proof -
  let ?f = "type_iii_ta_dec cp cpi nsb nsbi ind L"
  let ?t = "fold ?f [0..<k] t"
  have pre: "\<And>a. a < cp \<or> cp + k * nsb \<le> a \<Longrightarrow> ?t a = t a"
    by (rule fold_chunks_prefix[where cp=cp and nsb=nsb]) (simp_all add: type_iii_ta_dec_outside)
  have cnt: "counter ?t (cp + k * nsb) nsb i = counter t (cp + k * nsb) nsb i"
    by (rule counter_cong) (simp add: pre)
  have "counter (fold ?f [0..<K] t) (cp + k * nsb) nsb i = counter (?f k ?t) (cp + k * nsb) nsb i"
    by (rule fold_chunks_counter[OF _ assms(1)]) (rule type_iii_ta_dec_outside)
  also have "\<dots> = (if bit (L k AND NOT (ind (cpi + k * nsbi + nsbi - 1))) i
          then counter ?t (cp + k * nsb) nsb i - 1 else counter ?t (cp + k * nsb) nsb i)"
    by (simp only: type_iii_ta_dec_def Let_def cb_dec_counter[OF assms(2)])
  finally show ?thesis by (simp only: cnt)
qed

lemma type_iii_ind_inc_outside:
  "a < cp + k * nsb \<or> cp + k * nsb + nsb \<le> a \<Longrightarrow> type_iii_ind_inc cp j K nsb cat L Xi p k t a = t a"
  by (simp add: type_iii_ind_inc_def Let_def cb_inc_outside)

lemma type_iii_ind_dec_outside:
  "a < cp + k * nsb \<or> cp + k * nsb + nsb \<le> a \<Longrightarrow> type_iii_ind_dec cp j K nsb cat L Xi p k t a = t a"
  by (simp add: type_iii_ind_dec_def Let_def cb_dec_outside)

lemma type_iii_invert_outside:
  "a < j * K \<or> j * K + K \<le> a \<Longrightarrow> fold (type_iii_invert j K target) [0..<K] cat a = cat a"
  by (rule fold_frame) (auto simp: type_iii_invert_def Let_def)

lemma type_iii_toggle_outside:
  "r = - 1 \<or> (0 \<le> r \<and> r < 32) \<Longrightarrow> 0 < K \<Longrightarrow> a < j * K \<or> j * K + K \<le> a \<Longrightarrow>
   type_iii_toggle j K target r cat a = cat a"
proof -
  assume r: "r = - 1 \<or> (0 \<le> r \<and> r < 32)" and K: "0 < K" and a: "a < j * K \<or> j * K + K \<le> a"
  show ?thesis
  proof (cases "r = - 1")
    case True then show ?thesis by (simp add: type_iii_toggle_def)
  next
    case False
    with r have "nat r < 32" by auto
    then have "nat r div 32 = 0" by simp
    with a K show ?thesis by (auto simp: type_iii_toggle_def Let_def)
  qed
qed

lemma ta_chunks_pos: "0 < ta_chunks F"
  by (simp add: ta_chunks_def)


lemma type_iii_ledger_frames:
  assumes "type_iii_ledger F nsb nsbi P wd L Xi target j ta (ind, cat, g) = (ind', cat', g')"
  shows "a < j * ta_chunks F * nsbi \<or> j * ta_chunks F * nsbi + ta_chunks F * nsbi \<le> a \<Longrightarrow> ind' a = ind a"
    and "a < j * ta_chunks F \<or> j * ta_chunks F + ta_chunks F \<le> a \<Longrightarrow> cat' a = cat a"
    and "used g \<le> used g' \<and> draws g' = draws g"
proof -
  let ?K = "ta_chunks F"
  obtain co g1 where r: "cb_calculate_clause_output_feedback (at_offset ta (j * ?K * nsb)) ?K nsb
                  (tail_filter F) P L Xi g = (co, g1)"
    by (cases "cb_calculate_clause_output_feedback (at_offset ta (j * ?K * nsb)) ?K nsb (tail_filter F) P L Xi g")
  note u1 = feedback_eval_used[OF r]
  show "a < j * ?K * nsbi \<or> j * ?K * nsbi + ?K * nsbi \<le> a \<Longrightarrow> ind' a = ind a"
  proof -
    assume o: "a < j * ?K * nsbi \<or> j * ?K * nsbi + ?K * nsbi \<le> a"
    have 1: "\<And>p c t. fold (type_iii_ind_inc (j * ?K * nsbi) j ?K nsbi c L Xi p) [0..<?K] t a = t a"
      by (rule fold_chunks_outside[where cp="j * ?K * nsbi" and nsb=nsbi])
         (simp_all add: type_iii_ind_inc_outside o)
    have 2: "\<And>p c t. fold (type_iii_ind_dec (j * ?K * nsbi) j ?K nsbi c L Xi p) [0..<?K] t a = t a"
      by (rule fold_chunks_outside[where cp="j * ?K * nsbi" and nsb=nsbi])
         (simp_all add: type_iii_ind_dec_outside o)
    from assms show ?thesis
      by (auto simp: type_iii_ledger_def Let_def r split_beta 1 2 split: option.splits if_splits)
  qed
  show "a < j * ?K \<or> j * ?K + ?K \<le> a \<Longrightarrow> cat' a = cat a"
  proof -
    assume o: "a < j * ?K \<or> j * ?K + ?K \<le> a"
    obtain ol g2 where s: "cb_calculate_clause_output_single_false_literal (at_offset ta (j * ?K * nsb)) ?K nsb
                  (tail_filter F) P L Xi g1 = (ol, g2)"
      by (cases "cb_calculate_clause_output_single_false_literal (at_offset ta (j * ?K * nsb)) ?K nsb
                  (tail_filter F) P L Xi g1")
    from single_false_literal_range[OF s] have "ol = - 1 \<or> (0 \<le> ol \<and> ol < 32)" by simp
    from type_iii_toggle_outside[OF this ta_chunks_pos o]
    have 3: "type_iii_toggle j ?K target ol cat a = cat a" .
    from assms show ?thesis
      by (auto simp: type_iii_ledger_def Let_def r s split_beta 3 type_iii_invert_outside[OF o]
            split: option.splits if_splits)
  qed
  show "used g \<le> used g' \<and> draws g' = draws g"
  proof (cases co)
    case None
    obtain ol g2 where s: "cb_calculate_clause_output_single_false_literal (at_offset ta (j * ?K * nsb)) ?K nsb
                  (tail_filter F) P L Xi g1 = (ol, g2)"
      by (cases "cb_calculate_clause_output_single_false_literal (at_offset ta (j * ?K * nsb)) ?K nsb
                  (tail_filter F) P L Xi g1")
    from assms None have "g' = g2" by (simp add: type_iii_ledger_def Let_def r s)
    with single_false_literal_range[OF s] u1 show ?thesis by simp
  next
    case (Some p)
    with assms have "g' = (if target \<noteq> 0 then snd (fast_rand g1) else g1)"
      by (auto simp: type_iii_ledger_def Let_def r split_beta split: if_splits)
    with u1 show ?thesis by (simp add: fast_rand_def)
  qed
qed

lemma type_iii_clause_inactive:
  "ca j = 0 \<Longrightarrow> type_iii_clause F nsb nsbi P ex wd ca L Xi target j s = s"
  by (simp add: type_iii_clause_def split: prod.splits)

lemma type_iii_clause_active:
  assumes "ca j \<noteq> 0"
    and "type_iii_ledger F nsb nsbi P wd L Xi target j ta (ind, cat, g) = (ind2, cat2, g3)"
  shows "type_iii_clause F nsb nsbi P ex wd ca L Xi target j (ta, ind, cat, g) =
     (if ex (fst (fast_rand g3)) then ta
      else fold (type_iii_ta_dec (j * ta_chunks F * nsb) (j * ta_chunks F * nsbi) nsb nsbi ind2 L)
             [0..<ta_chunks F] ta,
      ind2, cat2, snd (fast_rand g3))"
  using assms by (simp add: type_iii_clause_def Let_def split_beta)

lemma type_iii_clause_frames:
  assumes "type_iii_clause F nsb nsbi P ex wd ca L Xi target j (ta, ind, cat, g) = (ta', ind', cat', g')"
  shows "a < j * ta_chunks F * nsb \<or> j * ta_chunks F * nsb + ta_chunks F * nsb \<le> a \<Longrightarrow> ta' a = ta a"
    and "a < j * ta_chunks F * nsbi \<or> j * ta_chunks F * nsbi + ta_chunks F * nsbi \<le> a \<Longrightarrow> ind' a = ind a"
    and "a < j * ta_chunks F \<or> j * ta_chunks F + ta_chunks F \<le> a \<Longrightarrow> cat' a = cat a"
    and "used g \<le> used g' \<and> draws g' = draws g"
    and "ca j \<noteq> 0 \<Longrightarrow> Suc (used g) \<le> used g'"
proof -
  let ?K = "ta_chunks F"
  obtain ind2 cat2 g3 where l: "type_iii_ledger F nsb nsbi P wd L Xi target j ta (ind, cat, g) = (ind2, cat2, g3)"
    by (cases "type_iii_ledger F nsb nsbi P wd L Xi target j ta (ind, cat, g)") auto
  note lf = type_iii_ledger_frames[OF l]
  show "a < j * ?K * nsb \<or> j * ?K * nsb + ?K * nsb \<le> a \<Longrightarrow> ta' a = ta a"
  proof -
    assume o: "a < j * ?K * nsb \<or> j * ?K * nsb + ?K * nsb \<le> a"
    have 1: "\<And>i2. fold (type_iii_ta_dec (j * ?K * nsb) (j * ?K * nsbi) nsb nsbi i2 L) [0..<?K] ta a = ta a"
      by (rule fold_chunks_outside[where cp="j * ?K * nsb" and nsb=nsb])
         (simp_all add: type_iii_ta_dec_outside o)
    show ?thesis
    proof (cases "ca j = 0")
      case True with assms show ?thesis by (simp add: type_iii_clause_inactive)
    next
      case False
      from assms show ?thesis unfolding type_iii_clause_active[where ca=ca and ex=ex, OF False l] by (auto simp: 1 split: if_splits)
    qed
  qed
  show "a < j * ?K * nsbi \<or> j * ?K * nsbi + ?K * nsbi \<le> a \<Longrightarrow> ind' a = ind a"
  proof (cases "ca j = 0")
    case True with assms show ?thesis by (simp add: type_iii_clause_inactive)
  next
    case False
    assume o: "a < j * ?K * nsbi \<or> j * ?K * nsbi + ?K * nsbi \<le> a"
    from assms have "ind' = ind2" unfolding type_iii_clause_active[where ca=ca and ex=ex, OF False l] by simp
    with lf(1)[OF o] show ?thesis by simp
  qed
  show "a < j * ?K \<or> j * ?K + ?K \<le> a \<Longrightarrow> cat' a = cat a"
  proof (cases "ca j = 0")
    case True with assms show ?thesis by (simp add: type_iii_clause_inactive)
  next
    case False
    assume o: "a < j * ?K \<or> j * ?K + ?K \<le> a"
    from assms have "cat' = cat2" unfolding type_iii_clause_active[where ca=ca and ex=ex, OF False l] by simp
    with lf(2)[OF o] show ?thesis by simp
  qed
  show "used g \<le> used g' \<and> draws g' = draws g"
  proof (cases "ca j = 0")
    case True with assms show ?thesis by (simp add: type_iii_clause_inactive)
  next
    case False
    from assms have "g' = snd (fast_rand g3)" unfolding type_iii_clause_active[where ca=ca and ex=ex, OF False l] by simp
    with lf(3) show ?thesis by (simp add: fast_rand_def)
  qed
  show "ca j \<noteq> 0 \<Longrightarrow> Suc (used g) \<le> used g'"
  proof -
    assume False: "ca j \<noteq> 0"
    from assms have "g' = snd (fast_rand g3)" unfolding type_iii_clause_active[where ca=ca and ex=ex, OF False l] by simp
    with lf(3) show ?thesis by (simp add: fast_rand_def)
  qed
qed

lemma type_iii_clause_lane:
  assumes "type_iii_clause F nsb nsbi P ex wd ca L Xi target j (ta, ind, cat, g) = (ta', ind', cat', g')"
    and "k < ta_chunks F"
    and "j0 * ta_chunks F * nsb + k * nsb \<le> a" and "a < j0 * ta_chunks F * nsb + k * nsb + nsb"
    and "\<not> bit (L k) i"
  shows "bit (ta' a) i = bit (ta a) i"
proof (cases "j0 = j")
  case True
  let ?K = "ta_chunks F"
  obtain ind2 cat2 g3 where l: "type_iii_ledger F nsb nsbi P wd L Xi target j ta (ind, cat, g) = (ind2, cat2, g3)"
    by (cases "type_iii_ledger F nsb nsbi P wd L Xi target j ta (ind, cat, g)") auto
  have 1: "\<And>i2. bit (fold (type_iii_ta_dec (j * ?K * nsb) (j * ?K * nsbi) nsb nsbi i2 L) [0..<?K] ta a) i = bit (ta a) i"
    by (rule fold_chunks_lane[where cp="j * ?K * nsb" and nsb=nsb and k=k])
       (use assms(3,4,5) True in \<open>simp_all add: type_iii_ta_dec_outside type_iii_ta_dec_masked\<close>)
  show ?thesis
  proof (cases "ca j = 0")
    case True with assms(1) show ?thesis by (simp add: type_iii_clause_inactive)
  next
    case False
    from assms(1) show ?thesis unfolding type_iii_clause_active[where ca=ca and ex=ex, OF False l] by (auto simp: 1 split: if_splits)
  qed
next
  case False
  from stripe_in_region[OF assms(2,3,4)] region_disjoint[OF False, of "ta_chunks F" nsb a]
  have "a < j * ta_chunks F * nsb \<or> j * ta_chunks F * nsb + ta_chunks F * nsb \<le> a" by blast
  from type_iii_clause_frames(1)[OF assms(1) this] show ?thesis by simp
qed

subsection \<open>Whole feedback calls\<close>

lemma cb_type_i_lane:
  assumes "cb_type_i_feedback ta fb C F nsb P ex boost ca L Xi g = Some (ta', fb', g')"
    and "k < ta_chunks F"
    and "j0 * ta_chunks F * nsb + k * nsb \<le> a" and "a < j0 * ta_chunks F * nsb + k * nsb + nsb"
    and "\<not> bit (L k) i"
  shows "bit (ta' a) i = bit (ta a) i"
proof -
  have "(\<lambda>s s'. bit (fst s' a) i = bit (fst s a) i) (ta, fb, g) (ta', fb', g')"
  proof (rule type_i_clauses_rel[OF assms(1)[unfolded cb_type_i_feedback_def]])
    fix j s s1 assume "type_i_clause F nsb P ex boost ca L Xi j s = Some s1"
    then show "bit (fst s1 a) i = bit (fst s a) i"
      using type_i_clause_lane[where L=L and k=k and i=i and a=a and ?j0.0=j0 and ta="fst s"
              and fb="fst (snd s)" and g="snd (snd s)" and ta'="fst s1" and fb'="fst (snd s1)" and g'="snd (snd s1)"
              and j=j and F=F and nsb=nsb and P=P and ex=ex and boost=boost and ca=ca and Xi=Xi]
            assms(2,3,4,5)
      by simp
  qed simp_all
  then show ?thesis by simp
qed

lemma cb_type_ii_lane:
  assumes "k < ta_chunks F"
    and "j0 * ta_chunks F * nsb + k * nsb \<le> a" and "a < j0 * ta_chunks F * nsb + k * nsb + nsb"
    and "\<not> bit (L k) i"
  shows "bit (fst (cb_type_ii_feedback ta C F nsb P ex ca L Xi g) a) i = bit (ta a) i"
proof -
  have "(\<lambda>s s'. bit (fst s' a) i = bit (fst s a) i) (ta, g)
          (fold (type_ii_clause F nsb P ex ca L Xi) [0..<C] (ta, g))"
  proof (rule fold_rel[where R="\<lambda>s s'. bit (fst s' a) i = bit (fst s a) i"])
    fix j and s :: "store \<times> prng"
    show "bit (fst (type_ii_clause F nsb P ex ca L Xi j s) a) i = bit (fst s a) i"
      using type_ii_clause_lane[where L=L and k=k and i=i and a=a and ?j0.0=j0 and ta="fst s" and g="snd s"
              and j=j and F=F and nsb=nsb and P=P and ex=ex and ca=ca and Xi=Xi] assms
      by simp
  qed simp_all
  then show ?thesis by (simp add: cb_type_ii_feedback_def)
qed

lemma cb_type_iii_lane:
  assumes "k < ta_chunks F"
    and "j0 * ta_chunks F * nsb + k * nsb \<le> a" and "a < j0 * ta_chunks F * nsb + k * nsb + nsb"
    and "\<not> bit (L k) i"
  shows "bit (fst (cb_type_iii_feedback ta ind cat C F nsb nsbi P ex wd ca L Xi target g) a) i = bit (ta a) i"
proof -
  have "(\<lambda>s s'. bit (fst s' a) i = bit (fst s a) i) (ta, ind, cat, g)
          (fold (type_iii_clause F nsb nsbi P ex wd ca L Xi target) [0..<C] (ta, ind, cat, g))"
  proof (rule fold_rel[where R="\<lambda>s s'. bit (fst s' a) i = bit (fst s a) i"])
    fix j and s :: "store \<times> store \<times> store \<times> prng"
    obtain t1 i1 c1 g1 where s: "s = (t1, i1, c1, g1)" by (cases s) auto
    obtain t2 i2 c2 g2 where r: "type_iii_clause F nsb nsbi P ex wd ca L Xi target j (t1, i1, c1, g1) = (t2, i2, c2, g2)"
      by (cases "type_iii_clause F nsb nsbi P ex wd ca L Xi target j (t1, i1, c1, g1)") auto
    from type_iii_clause_lane[where L=L and k=k and i=i and a=a and ?j0.0=j0, OF r] assms
    show "bit (fst (type_iii_clause F nsb nsbi P ex wd ca L Xi target j s) a) i = bit (fst s a) i"
      by (simp add: s r)
  qed simp_all
  then show ?thesis by (simp add: cb_type_iii_feedback_def)
qed

lemma cb_type_i_inactive:
  assumes "cb_type_i_feedback ta fb C F nsb P ex boost ca L Xi g = Some (ta', fb', g')"
    and "ca j = 0"
    and "j * ta_chunks F * nsb \<le> a" and "a < j * ta_chunks F * nsb + ta_chunks F * nsb"
  shows "ta' a = ta a"
proof -
  have "(\<lambda>s s'. fst s' a = fst s a) (ta, fb, g) (ta', fb', g')"
  proof (rule type_i_clauses_rel[OF assms(1)[unfolded cb_type_i_feedback_def]])
    fix j' and s s1 :: "store \<times> store \<times> prng"
    assume st: "type_i_clause F nsb P ex boost ca L Xi j' s = Some s1"
    obtain t1 f1 g1 where s: "s = (t1, f1, g1)" by (cases s) auto
    obtain t2 f2 g2 where s1: "s1 = (t2, f2, g2)" by (cases s1) auto
    show "fst s1 a = fst s a"
    proof (cases "j' = j")
      case True
      with st assms(2) show ?thesis by (auto simp: s type_i_clause_inactive)
    next
      case False
      then have "j \<noteq> j'" by simp
      from region_disjoint[OF this assms(3,4)] type_i_clause_outside[OF st[unfolded s s1]]
      show ?thesis by (simp add: s s1)
    qed
  qed simp_all
  then show ?thesis by simp
qed

lemma cb_type_ii_inactive:
  assumes "ca j = 0"
    and "j * ta_chunks F * nsb \<le> a" and "a < j * ta_chunks F * nsb + ta_chunks F * nsb"
  shows "fst (cb_type_ii_feedback ta C F nsb P ex ca L Xi g) a = ta a"
proof -
  have "(\<lambda>s s'. fst s' a = fst s a) (ta, g) (fold (type_ii_clause F nsb P ex ca L Xi) [0..<C] (ta, g))"
  proof (rule fold_rel[where R="\<lambda>s s'. fst s' a = fst s a"])
    fix j' and s :: "store \<times> prng"
    show "fst (type_ii_clause F nsb P ex ca L Xi j' s) a = fst s a"
    proof (cases "j' = j")
      case True
      with assms(1) show ?thesis using type_ii_clause_inactive[of ca j F nsb P ex L Xi "fst s" "snd s"] by simp
    next
      case False
      then have "j \<noteq> j'" by simp
      from region_disjoint[OF this assms(2,3)] type_ii_clause_outside[of a j' F nsb P ex ca L Xi "fst s" "snd s"]
      show ?thesis by simp
    qed
  qed simp_all
  then show ?thesis by (simp add: cb_type_ii_feedback_def)
qed

lemma cb_type_iii_inactive:
  assumes "cb_type_iii_feedback ta ind cat C F nsb nsbi P ex wd ca L Xi target g = (ta', ind', cat', g')"
    and "ca j = 0"
  shows "j * ta_chunks F * nsb \<le> a \<Longrightarrow> a < j * ta_chunks F * nsb + ta_chunks F * nsb \<Longrightarrow> ta' a = ta a"
    and "j * ta_chunks F * nsbi \<le> a \<Longrightarrow> a < j * ta_chunks F * nsbi + ta_chunks F * nsbi \<Longrightarrow> ind' a = ind a"
    and "j * ta_chunks F \<le> a \<Longrightarrow> a < j * ta_chunks F + ta_chunks F \<Longrightarrow> cat' a = cat a"
proof -
  let ?f = "type_iii_clause F nsb nsbi P ex wd ca L Xi target"
  have step: "\<And>j' s. j' \<noteq> j \<Longrightarrow>
      (j * ta_chunks F * nsb \<le> a \<longrightarrow> a < j * ta_chunks F * nsb + ta_chunks F * nsb \<longrightarrow> fst (?f j' s) a = fst s a)
    \<and> (j * ta_chunks F * nsbi \<le> a \<longrightarrow> a < j * ta_chunks F * nsbi + ta_chunks F * nsbi
         \<longrightarrow> fst (snd (?f j' s)) a = fst (snd s) a)
    \<and> (j * ta_chunks F \<le> a \<longrightarrow> a < j * ta_chunks F + ta_chunks F
         \<longrightarrow> fst (snd (snd (?f j' s))) a = fst (snd (snd s)) a)"
  proof -
    fix j' and s :: "store \<times> store \<times> store \<times> prng"
    assume n: "j' \<noteq> j"
    then have n': "j \<noteq> j'" by simp
    obtain t1 i1 c1 g1 where s: "s = (t1, i1, c1, g1)" by (cases s) auto
    obtain t2 i2 c2 g2 where r: "?f j' (t1, i1, c1, g1) = (t2, i2, c2, g2)"
      by (cases "?f j' (t1, i1, c1, g1)") auto
    note fr = type_iii_clause_frames[OF r]
    show "(j * ta_chunks F * nsb \<le> a \<longrightarrow> a < j * ta_chunks F * nsb + ta_chunks F * nsb \<longrightarrow> fst (?f j' s) a = fst s a)
    \<and> (j * ta_chunks F * nsbi \<le> a \<longrightarrow> a < j * ta_chunks F * nsbi + ta_chunks F * nsbi
         \<longrightarrow> fst (snd (?f j' s)) a = fst (snd s) a)
    \<and> (j * ta_chunks F \<le> a \<longrightarrow> a < j * ta_chunks F + ta_chunks F
         \<longrightarrow> fst (snd (snd (?f j' s))) a = fst (snd (snd s)) a)"
      using region_disjoint[OF n', of "ta_chunks F" nsb a] region_disjoint[OF n', of "ta_chunks F" nsbi a]
            region_disjoint[OF n', of "ta_chunks F" 1 a] fr(1)[of a] fr(2)[of a] fr(3)[of a]
      by (simp add: s r)
  qed
  have all: "(\<lambda>s s'.
      (j * ta_chunks F * nsb \<le> a \<longrightarrow> a < j * ta_chunks F * nsb + ta_chunks F * nsb \<longrightarrow> fst s' a = fst s a)
    \<and> (j * ta_chunks F * nsbi \<le> a \<longrightarrow> a < j * ta_chunks F * nsbi + ta_chunks F * nsbi
         \<longrightarrow> fst (snd s') a = fst (snd s) a)
    \<and> (j * ta_chunks F \<le> a \<longrightarrow> a < j * ta_chunks F + ta_chunks F
         \<longrightarrow> fst (snd (snd s')) a = fst (snd (snd s)) a)) (ta, ind, cat, g) (fold ?f [0..<C] (ta, ind, cat, g))"
  proof (rule fold_rel[where R="\<lambda>s s'.
      (j * ta_chunks F * nsb \<le> a \<longrightarrow> a < j * ta_chunks F * nsb + ta_chunks F * nsb \<longrightarrow> fst s' a = fst s a)
    \<and> (j * ta_chunks F * nsbi \<le> a \<longrightarrow> a < j * ta_chunks F * nsbi + ta_chunks F * nsbi
         \<longrightarrow> fst (snd s') a = fst (snd s) a)
    \<and> (j * ta_chunks F \<le> a \<longrightarrow> a < j * ta_chunks F + ta_chunks F
         \<longrightarrow> fst (snd (snd s')) a = fst (snd (snd s)) a)"])
    fix j' and s :: "store \<times> store \<times> store \<times> prng"
    show "(j * ta_chunks F * nsb \<le> a \<longrightarrow> a < j * ta_chunks F * nsb + ta_chunks F * nsb \<longrightarrow> fst (?f j' s) a = fst s a)
    \<and> (j * ta_chunks F * nsbi \<le> a \<longrightarrow> a < j * ta_chunks F * nsbi + ta_chunks F * nsbi
         \<longrightarrow> fst (snd (?f j' s)) a = fst (snd s) a)
    \<and> (j * ta_chunks F \<le> a \<longrightarrow> a < j * ta_chunks F + ta_chunks F
         \<longrightarrow> fst (snd (snd (?f j' s))) a = fst (snd (snd s)) a)"
    proof (cases "j' = j")
      case True
      with assms(2) show ?thesis by (simp add: type_iii_clause_inactive)
    next
      case False
      then show ?thesis by (rule step)
    qed
  qed simp_all
  from all assms(1) show "j * ta_chunks F * nsb \<le> a \<Longrightarrow> a < j * ta_chunks F * nsb + ta_chunks F * nsb \<Longrightarrow> ta' a = ta a"
    by (simp add: cb_type_iii_feedback_def)
  from all assms(1) show "j * ta_chunks F * nsbi \<le> a \<Longrightarrow> a < j * ta_chunks F * nsbi + ta_chunks F * nsbi \<Longrightarrow> ind' a = ind a"
    by (simp add: cb_type_iii_feedback_def)
  from all assms(1) show "j * ta_chunks F \<le> a \<Longrightarrow> a < j * ta_chunks F + ta_chunks F \<Longrightarrow> cat' a = cat a"
    by (simp add: cb_type_iii_feedback_def)
qed

lemma type_iii_clauses_all_inactive:
  "\<forall>j\<in>set js. ca j = 0 \<Longrightarrow> fold (type_iii_clause F nsb nsbi P ex wd ca L Xi target) js s = s"
  by (induction js arbitrary: s) (simp_all add: type_iii_clause_inactive)

subsection \<open>The search for a single offending literal\<close>

lemma popcount_nat_zero: "popcount_nat 0 = 0"
  by (simp add: popcount_nat.simps[of 0])

lemma popcount_nat_0_iff: "popcount_nat n = 0 \<longleftrightarrow> n = 0"
proof (induction n rule: popcount_nat.induct)
  case (1 n)
  show ?case
  proof (cases "n = 0")
    case True then show ?thesis by (simp add: popcount_nat_zero)
  next
    case False
    from "1.IH"[OF False] False show ?thesis
      by (simp add: popcount_nat.simps[of n]) presburger
  qed
qed

lemma nat_and_pred:
  fixes n :: nat
  assumes "0 < n"
  shows "n AND (n - 1) = (if even n then 2 * ((n div 2) AND (n div 2 - 1)) else 2 * (n div 2))"
proof (cases "even n")
  case True
  then obtain m where m: "n = 2 * m" by (auto elim: evenE)
  with assms have m0: "0 < m" by simp
  have d: "(n - 1) div 2 = m - 1" using m m0 by (cases m) auto
  have o: "odd (n - 1)" using m m0 by (cases m) auto
  have "n AND (n - 1) = of_bool (odd n \<and> odd (n - 1)) + 2 * ((n div 2) AND ((n - 1) div 2))"
    by (rule and_rec)
  with True d m show ?thesis by simp
next
  case False
  then obtain m where m: "n = 2 * m + 1" by (auto elim: oddE)
  have "n AND (n - 1) = of_bool (odd n \<and> odd (n - 1)) + 2 * ((n div 2) AND ((n - 1) div 2))"
    by (rule and_rec)
  with False m show ?thesis by simp
qed

lemma nat_single_bit_iff:
  "0 < n \<Longrightarrow> n AND (n - 1) = 0 \<longleftrightarrow> popcount_nat n = 1"
proof (induction n rule: popcount_nat.induct)
  case (1 n)
  from "1.prems" have n0: "n \<noteq> 0" by simp
  show ?case
  proof (cases "even n")
    case True
    with "1.prems" have h: "0 < n div 2" by (auto elim: evenE)
    from True have "n mod 2 = 0" by presburger
    with "1.IH"[OF n0 h] True "1.prems" nat_and_pred[OF "1.prems"] show ?thesis
      by (simp add: popcount_nat.simps[of n])
  next
    case False
    then have "n mod 2 = 1" by presburger
    moreover have "(n \<le> Suc 0) = (n div 2 = 0)" by presburger
    ultimately show ?thesis using False "1.prems" nat_and_pred[OF "1.prems"]
      by (simp add: popcount_nat.simps[of n] popcount_nat_0_iff)
  qed
qed

lemma nat_single_bit_log2:
  "popcount_nat n = 1 \<Longrightarrow> n = 2 ^ floor_log2 n"
proof (induction n rule: popcount_nat.induct)
  case (1 n)
  have n0: "n \<noteq> 0"
  proof
    assume "n = 0"
    with "1.prems" show False by (simp add: popcount_nat_zero)
  qed
  show ?case
  proof (cases "even n")
    case True
    with n0 have h: "2 \<le> n" by (auto elim: evenE)
    from True have "n mod 2 = 0" by presburger
    with "1.prems" n0 have "popcount_nat (n div 2) = 1" by (simp add: popcount_nat.simps[of n])
    from "1.IH"[OF n0 this] have "n div 2 = 2 ^ floor_log2 (n div 2)" .
    with True h show ?thesis by (simp add: floor_log2.simps[of n])
  next
    case False
    then have "n mod 2 = 1" by presburger
    with "1.prems" n0 have "n div 2 = 0" by (simp add: popcount_nat.simps[of n] popcount_nat_0_iff)
    with False have "n = 1" by presburger
    then show ?thesis by (simp add: floor_log2.simps[of "Suc 0"])
  qed
qed

lemma popcount_0_iff: "popcount w = 0 \<longleftrightarrow> w = 0"
  by (simp add: popcount_def popcount_nat_0_iff unat_eq_0)

lemma single_bit_iff: "w \<noteq> 0 \<Longrightarrow> w AND (w - 1) = 0 \<longleftrightarrow> popcount w = 1"
proof -
  assume w: "w \<noteq> 0"
  then have p: "0 < unat w" by (simp add: unat_gt_0)
  have "unat (w AND (w - 1)) = unat w AND (unat w - 1)"
    using w by (simp add: unsigned_and_eq unat_minus_one)
  then have "w AND (w - 1) = 0 \<longleftrightarrow> unat w AND (unat w - 1) = 0"
    by (metis unat_eq_0)
  with nat_single_bit_iff[OF p] show ?thesis by (simp add: popcount_def)
qed

lemma single_bit_position: "popcount w = 1 \<Longrightarrow> w = 2 ^ log2_u32 w"
proof -
  assume "popcount w = 1"
  then have "unat w = 2 ^ floor_log2 (unat w)" unfolding popcount_def by (rule nat_single_bit_log2)
  then have "of_nat (unat w) = (of_nat (2 ^ floor_log2 (unat w)) :: u32)" by simp
  then show ?thesis by (simp add: log2_u32_def)
qed


lemma multi_iff: "w AND (w - 1) > 0 \<longleftrightarrow> 2 \<le> popcount w"
proof (cases "w = 0")
  case True then show ?thesis by (simp add: popcount_def popcount_nat_zero)
next
  case False
  then have "popcount w \<noteq> 0" by (simp add: popcount_0_iff)
  with single_bit_iff[OF False] show ?thesis by (auto simp: word_greater_zero_iff)
qed

lemma first_offending_Cons:
  "first_offending (w # ws) = (if w \<noteq> 0 then w else first_offending ws)"
  by (simp add: first_offending_def)

lemma scan_chunks:
  assumes "K - 1 \<notin> set ks"
    and "offending_chunks ta K nsb L Xi p ks (mx, al, id0) = (mx', al', id')"
  shows "(al \<longrightarrow> al' \<and> (mx' \<longleftrightarrow> mx \<and> sum_list (map (\<lambda>k. popcount (offending_word ta K nsb fltr L Xi p k)) ks) = 0)
                  \<and> (mx' \<longrightarrow> id' = id0))
       \<and> (\<not> al \<longrightarrow> (mx' \<longleftrightarrow> mx \<and> sum_list (map (\<lambda>k. popcount (offending_word ta K nsb fltr L Xi p k)) ks) \<le> 1)
                  \<and> (al' \<longrightarrow> 1 \<le> sum_list (map (\<lambda>k. popcount (offending_word ta K nsb fltr L Xi p k)) ks))
                  \<and> (sum_list (map (\<lambda>k. popcount (offending_word ta K nsb fltr L Xi p k)) ks) = 1 \<longrightarrow> al')
                  \<and> (mx' \<and> al' \<longrightarrow> id' = log2_u32 (first_offending (map (offending_word ta K nsb fltr L Xi p) ks))))"
  using assms
proof (induction ks arbitrary: mx al id0)
  case Nil
  then show ?case by auto
next
  case (Cons k ks)
  let ?w = "offending_word ta K nsb fltr L Xi p k"
  let ?c = "sum_list (map (\<lambda>k. popcount (offending_word ta K nsb fltr L Xi p k)) ks)"
  from Cons.prems(1) have kt: "k \<noteq> K - 1" and rest: "K - 1 \<notin> set ks" by auto
  have w: "?w = (ta (k * nsb + nsb - 1) AND (Xi (p * K + k) OR NOT (L k))) XOR ta (k * nsb + nsb - 1)"
    using kt by (simp add: offending_word_def Let_def)
  have step: "offending_chunks ta K nsb L Xi p (k # ks) (mx, al, id0) =
      (if ?w AND (?w - 1) > 0 then (False, al, id0)
       else if ?w \<noteq> 0
       then (if \<not> al then offending_chunks ta K nsb L Xi p ks (mx, True, log2_u32 ?w) else (False, al, id0))
       else offending_chunks ta K nsb L Xi p ks (mx, al, id0))"
    unfolding w by (simp add: Let_def)
  consider (multi) "2 \<le> popcount ?w"
    | (one) "popcount ?w = 1"
    | (none) "popcount ?w = 0" by linarith
  then show ?case
  proof cases
    case multi
    then have "?w AND (?w - 1) > 0" by (simp add: multi_iff)
    with Cons.prems(2) step have "mx' = False" "al' = al" "id' = id0" by simp_all
    with multi show ?thesis by auto
  next
    case one
    then have nm: "\<not> ?w AND (?w - 1) > 0" and nz: "?w \<noteq> 0"
      by (auto simp: multi_iff popcount_0_iff[symmetric])
    show ?thesis
    proof (cases al)
      case True
      with Cons.prems(2) step nm nz have "mx' = False" "al' = al" "id' = id0" by simp_all
      with True one show ?thesis by auto
    next
      case False
      with Cons.prems(2) step nm nz
      have r: "offending_chunks ta K nsb L Xi p ks (mx, True, log2_u32 ?w) = (mx', al', id')" by simp
      from Cons.IH[OF rest r] False one nz show ?thesis
        by (auto simp: first_offending_Cons)
    qed
  next
    case none
    then have z: "?w = 0" by (simp add: popcount_0_iff)
    then have nm: "\<not> ?w AND (?w - 1) > 0" by simp
    from Cons.prems(2) step nm z
    have r: "offending_chunks ta K nsb L Xi p ks (mx, al, id0) = (mx', al', id')" by simp
    from Cons.IH[OF rest r] none z show ?thesis
      by (auto simp: first_offending_Cons)
  qed
qed


lemma first_offending_zero:
  "sum_list (map popcount ws) = 0 \<Longrightarrow> first_offending ws = 0"
  by (induction ws) (auto simp: first_offending_Cons popcount_0_iff first_offending_def)

lemma first_offending_append:
  "first_offending (ws @ [t]) = (if first_offending ws \<noteq> 0 then first_offending ws else t)"
  by (induction ws) (auto simp: first_offending_Cons first_offending_def)

lemma first_offending_single:
  "sum_list (map popcount ws) = 1 \<Longrightarrow> first_offending ws \<in> set ws \<and> popcount (first_offending ws) = 1"
proof (induction ws)
  case Nil then show ?case by simp
next
  case (Cons w ws)
  show ?case
  proof (cases "w = 0")
    case True
    have "popcount w = 0" using True by (simp add: popcount_0_iff)
    with Cons.prems have "sum_list (map popcount ws) = 1" by simp
    from Cons.IH[OF this] True show ?thesis by (simp add: first_offending_Cons)
  next
    case False
    then have "popcount w \<noteq> 0" by (simp add: popcount_0_iff)
    with Cons.prems have "popcount w = 1" by simp
    with False show ?thesis by (simp add: first_offending_Cons)
  qed
qed

lemma chunks_snoc: "0 < K \<Longrightarrow> [0..<K] = [0..<K - 1] @ [K - 1]"
  by (cases K) simp_all

lemma offending_count_split:
  "0 < K \<Longrightarrow> offending_count ta K nsb fltr L Xi p
     = sum_list (map (\<lambda>k. popcount (offending_word ta K nsb fltr L Xi p k)) [0..<K - 1])
       + popcount (offending_word ta K nsb fltr L Xi p (K - 1))"
  unfolding offending_count_def by (subst chunks_snoc) simp_all

lemma offending_position_split:
  "0 < K \<Longrightarrow> offending_position ta K nsb fltr L Xi p
     = log2_u32 (if first_offending (map (offending_word ta K nsb fltr L Xi p) [0..<K - 1]) \<noteq> 0
                 then first_offending (map (offending_word ta K nsb fltr L Xi p) [0..<K - 1])
                 else offending_word ta K nsb fltr L Xi p (K - 1))"
  unfolding offending_position_def by (subst chunks_snoc) (simp_all add: first_offending_append)

lemma single_bit_in_filter:
  fixes x y fltr :: u32
  assumes "\<not> ((x AND fltr) XOR (y AND fltr)) AND (((x AND fltr) XOR (y AND fltr)) - 1) > 0"
    and "(x AND fltr) XOR (y AND fltr) \<noteq> 0"
  shows "bit fltr (log2_u32 ((x AND fltr) XOR (y AND fltr)))"
proof -
  let ?t = "(x AND fltr) XOR (y AND fltr)"
  from assms(1) have "\<not> 2 \<le> popcount ?t" by (simp only: multi_iff not_False_eq_True)
  moreover from assms(2) have "popcount ?t \<noteq> 0" by (simp only: popcount_0_iff not_False_eq_True)
  ultimately have "popcount ?t = 1" by linarith
  from single_bit_position[OF this] have e: "?t = 2 ^ log2_u32 ?t" .
  have "bit ((2::u32) ^ log2_u32 ?t) (log2_u32 ?t)" by (simp add: bit_exp_iff log2_u32_less)
  with e have "bit ?t (log2_u32 ?t)" by simp
  then show ?thesis by (auto simp: bit_xor_iff bit_and_iff)
qed

lemma offending_patches_range:
  assumes F: "0 < F"
  shows "(\<forall>c\<in>set cands. c < F) \<Longrightarrow>
         \<forall>c\<in>set (offending_patches ta (ta_chunks F) nsb (tail_filter F) L Xi ps id0 cands). c < F"
proof (induction ps arbitrary: id0 cands)
  case Nil then show ?case by simp
next
  case (Cons p ps)
  let ?K = "ta_chunks F"
  obtain mx al id1 where r: "offending_chunks ta ?K nsb L Xi p [0..<?K - 1] (True, False, id0) = (mx, al, id1)"
    by (cases "offending_chunks ta ?K nsb L Xi p [0..<?K - 1] (True, False, id0)") auto
  let ?off = "(ta ((?K - 1) * nsb + nsb - 1) AND (Xi (p * ?K + ?K - 1) OR NOT (L (?K - 1))) AND tail_filter F)
                XOR (ta ((?K - 1) * nsb + nsb - 1) AND tail_filter F)"
  have step: "offending_patches ta ?K nsb (tail_filter F) L Xi (p # ps) id0 cands =
      (if ?off AND (?off - 1) > 0 then cands
       else if ?off \<noteq> 0
       then (if \<not> al then offending_patches ta ?K nsb (tail_filter F) L Xi ps (log2_u32 ?off)
                            (if mx then cands @ [log2_u32 ?off] else cands)
             else cands)
       else offending_patches ta ?K nsb (tail_filter F) L Xi ps id1 (if mx \<and> al then cands @ [id1] else cands))"
    by (simp only: offending_patches.simps r prod.case Let_def)
  have i: "al \<longrightarrow> id1 < F"
  proof
    assume al
    from offending_chunks_id[OF r] \<open>al\<close> have l: "id1 < 32" by simp
    have "?K - 1 \<noteq> 0"
    proof
      assume "?K - 1 = 0"
      with r \<open>al\<close> show False by simp
    qed
    then have "0 < ?K - 1" by simp
    from nontail_literal[OF this l] show "id1 < F" by simp
  qed
  have t: "\<not> ?off AND (?off - 1) > 0 \<Longrightarrow> ?off \<noteq> 0 \<Longrightarrow> log2_u32 ?off < F"
  proof -
    assume a: "\<not> ?off AND (?off - 1) > 0" and b: "?off \<noteq> 0"
    have e: "?off = ((ta ((?K - 1) * nsb + nsb - 1) AND (Xi (p * ?K + ?K - 1) OR NOT (L (?K - 1)))) AND tail_filter F)
                XOR (ta ((?K - 1) * nsb + nsb - 1) AND tail_filter F)"
      by (simp only: and.assoc)
    from a b have "bit (tail_filter F) (log2_u32 ?off)"
      unfolding e by (rule single_bit_in_filter)
    from tail_literal[OF F this] show ?thesis by simp
  qed
  have a: "\<not> ?off AND (?off - 1) > 0 \<Longrightarrow> ?off \<noteq> 0 \<Longrightarrow>
           \<forall>c\<in>set (if mx then cands @ [log2_u32 ?off] else cands). c < F"
    using Cons.prems t by simp
  have b: "\<forall>c\<in>set (if mx \<and> al then cands @ [id1] else cands). c < F"
    using Cons.prems i by simp
  show ?case
  proof (cases "?off AND (?off - 1) > 0")
    case True
    with step Cons.prems show ?thesis by (simp del: offending_patches.simps)
  next
    case m: False
    show ?thesis
    proof (cases "?off = 0")
      case True
      with step m Cons.IH[OF b] show ?thesis by (simp del: offending_patches.simps)
    next
      case False
      with step m Cons.IH[OF a[OF m False]] Cons.prems show ?thesis
        by (simp del: offending_patches.simps)
    qed
  qed
qed

lemma single_false_literal_in_features:
  assumes "0 < F"
  shows "fst (cb_calculate_clause_output_single_false_literal ta (ta_chunks F) nsb (tail_filter F) P L Xi g) = - 1
       \<or> (0 \<le> fst (cb_calculate_clause_output_single_false_literal ta (ta_chunks F) nsb (tail_filter F) P L Xi g)
          \<and> fst (cb_calculate_clause_output_single_false_literal ta (ta_chunks F) nsb (tail_filter F) P L Xi g) < int F)"
proof -
  let ?c = "offending_patches ta (ta_chunks F) nsb (tail_filter F) L Xi [0..<P] 0 []"
  have c: "\<forall>c\<in>set ?c. c < F" by (rule offending_patches_range[OF assms]) simp
  show ?thesis
  proof (cases "length ?c > 0")
    case True
    then have "unat (fst (fast_rand g)) mod length ?c < length ?c" by simp
    then have "?c ! (unat (fst (fast_rand g)) mod length ?c) \<in> set ?c" by (rule nth_mem)
    with c have "?c ! (unat (fst (fast_rand g)) mod length ?c) < F" by blast
    with True show ?thesis
      by (auto simp: cb_calculate_clause_output_single_false_literal_def Let_def split_beta fast_rand_def)
  next
    case False
    then show ?thesis
      by (auto simp: cb_calculate_clause_output_single_false_literal_def Let_def)
  qed
qed

lemma popcount_zero: "popcount 0 = 0"
  by (simp add: popcount_0_iff)

lemma scan_chunks_already:
  assumes "K - 1 \<notin> set ks"
    and "offending_chunks ta K nsb L Xi p ks (mx, False, id0) = (mx', al', id')"
  shows "al' \<longleftrightarrow> popcount (first_offending (map (offending_word ta K nsb fltr L Xi p) ks)) = 1"
  using assms
proof (induction ks arbitrary: mx id0)
  case Nil
  then show ?case by (simp add: first_offending_def popcount_zero)
next
  case (Cons k ks)
  let ?w = "offending_word ta K nsb fltr L Xi p k"
  from Cons.prems(1) have kt: "k \<noteq> K - 1" and rest: "K - 1 \<notin> set ks" by auto
  have w: "?w = (ta (k * nsb + nsb - 1) AND (Xi (p * K + k) OR NOT (L k))) XOR ta (k * nsb + nsb - 1)"
    using kt by (simp add: offending_word_def Let_def)
  have step: "offending_chunks ta K nsb L Xi p (k # ks) (mx, False, id0) =
      (if ?w AND (?w - 1) > 0 then (False, False, id0)
       else if ?w \<noteq> 0
       then offending_chunks ta K nsb L Xi p ks (mx, True, log2_u32 ?w)
       else offending_chunks ta K nsb L Xi p ks (mx, False, id0))"
    unfolding w by (simp add: Let_def)
  consider (multi) "2 \<le> popcount ?w"
    | (one) "popcount ?w = 1"
    | (none) "popcount ?w = 0" by linarith
  then show ?case
  proof cases
    case multi
    then have m: "?w AND (?w - 1) > 0" by (simp add: multi_iff)
    from multi have nz: "?w \<noteq> 0" by (auto simp: popcount_zero)
    from Cons.prems(2) step m have "al' = False" by simp
    with multi nz show ?thesis by (simp add: first_offending_Cons)
  next
    case one
    then have nm: "\<not> ?w AND (?w - 1) > 0" and nz: "?w \<noteq> 0"
      by (auto simp: multi_iff popcount_0_iff[symmetric])
    from Cons.prems(2) step nm nz
    have r: "offending_chunks ta K nsb L Xi p ks (mx, True, log2_u32 ?w) = (mx', al', id')" by simp
    from scan_chunks[OF rest r, of fltr] have "al'" by simp
    with one nz show ?thesis by (simp add: first_offending_Cons)
  next
    case none
    then have z: "?w = 0" by (simp add: popcount_0_iff)
    then have nm: "\<not> ?w AND (?w - 1) > 0" by simp
    from Cons.prems(2) step nm z
    have r: "offending_chunks ta K nsb L Xi p ks (mx, False, id0) = (mx', al', id')" by simp
    from Cons.IH[OF rest r] z show ?thesis by (simp add: first_offending_Cons)
  qed
qed

lemma scan_patches_exact:
  assumes "0 < K"
  shows "offending_patches ta K nsb fltr L Xi ps id0 cands
       = cands @ map (offending_position ta K nsb fltr L Xi)
                   (filter (\<lambda>p. offending_count ta K nsb fltr L Xi p = 1)
                      (takeWhile (\<lambda>p. \<not> tail_break ta K nsb fltr L Xi p) ps))"
proof (induction ps arbitrary: id0 cands)
  case Nil show ?case by simp
next
  case (Cons p ps)
  let ?t = "offending_word ta K nsb fltr L Xi p (K - 1)"
  let ?c = "sum_list (map (\<lambda>k. popcount (offending_word ta K nsb fltr L Xi p k)) [0..<K - 1])"
  let ?fo = "first_offending (map (offending_word ta K nsb fltr L Xi p) [0..<K - 1])"
  obtain mx al id1 where r: "offending_chunks ta K nsb L Xi p [0..<K - 1] (True, False, id0) = (mx, al, id1)"
    by (cases "offending_chunks ta K nsb L Xi p [0..<K - 1] (True, False, id0)") auto
  have nt: "K - 1 \<notin> set [0..<K - 1]" by simp
  from scan_chunks[OF nt r, of fltr]
  have mx: "mx \<longleftrightarrow> ?c \<le> 1" and al1: "al \<Longrightarrow> 1 \<le> ?c" and al2: "?c = 1 \<Longrightarrow> al"
    and id1: "mx \<Longrightarrow> al \<Longrightarrow> id1 = log2_u32 ?fo" by simp_all
  from scan_chunks_already[OF nt r, of fltr] have al: "al \<longleftrightarrow> popcount ?fo = 1" .
  have t: "?t = (ta ((K - 1) * nsb + nsb - 1) AND (Xi (p * K + K - 1) OR NOT (L (K - 1))) AND fltr)
                XOR (ta ((K - 1) * nsb + nsb - 1) AND fltr)"
    by (simp add: offending_word_def Let_def)
  have step: "offending_patches ta K nsb fltr L Xi (p # ps) id0 cands =
      (if ?t AND (?t - 1) > 0 then cands
       else if ?t \<noteq> 0
       then (if \<not> al then offending_patches ta K nsb fltr L Xi ps (log2_u32 ?t)
                            (if mx then cands @ [log2_u32 ?t] else cands)
             else cands)
       else offending_patches ta K nsb fltr L Xi ps id1 (if mx \<and> al then cands @ [id1] else cands))"
    unfolding t by (simp only: offending_patches.simps r prod.case Let_def)
  have brk: "tail_break ta K nsb fltr L Xi p \<longleftrightarrow> 2 \<le> popcount ?t \<or> (popcount ?t = 1 \<and> al)"
    by (simp only: tail_break_def Let_def al)
  have total: "offending_count ta K nsb fltr L Xi p = ?c + popcount ?t"
    by (rule offending_count_split[OF assms])
  have pos: "offending_position ta K nsb fltr L Xi p = log2_u32 (if ?fo \<noteq> 0 then ?fo else ?t)"
    by (rule offending_position_split[OF assms])
  note IH = Cons.IH
  consider (multi) "2 \<le> popcount ?t"
    | (one) "popcount ?t = 1"
    | (none) "popcount ?t = 0" by linarith
  then show ?case
  proof cases
    case multi
    then have "?t AND (?t - 1) > 0" by (simp add: multi_iff)
    moreover from multi brk have "tail_break ta K nsb fltr L Xi p" by simp
    ultimately show ?thesis using step by (simp del: offending_patches.simps)
  next
    case one
    then have nm: "\<not> ?t AND (?t - 1) > 0" and nz: "?t \<noteq> 0"
      by (auto simp: multi_iff popcount_0_iff[symmetric])
    show ?thesis
    proof (cases al)
      case True
      with one brk have "tail_break ta K nsb fltr L Xi p" by simp
      with step nm nz True show ?thesis by (simp del: offending_patches.simps)
    next
      case False
      with one brk have nb: "\<not> tail_break ta K nsb fltr L Xi p" by simp
      show ?thesis
      proof (cases mx)
        case True
        with mx have "?c \<le> 1" by simp
        moreover from al2 False have "?c \<noteq> 1" by blast
        ultimately have c0: "?c = 0" by linarith
        with total one have c1: "offending_count ta K nsb fltr L Xi p = 1" by linarith
        have "?fo = 0"
          by (rule first_offending_zero) (simp only: map_map comp_def c0)
        with pos have "offending_position ta K nsb fltr L Xi p = log2_u32 ?t" by simp
        with step nm nz False True nb c1 IH[of "log2_u32 ?t" "cands @ [log2_u32 ?t]"] show ?thesis
          by (simp del: offending_patches.simps)
      next
        case mf: False
        with mx have "\<not> ?c \<le> 1" by simp
        with total have c1: "offending_count ta K nsb fltr L Xi p \<noteq> 1" by linarith
        with step nm nz False mf nb IH[of "log2_u32 ?t" cands] show ?thesis
          by (simp del: offending_patches.simps)
      qed
    qed
  next
    case none
    then have z: "?t = 0" by (simp add: popcount_0_iff)
    then have nm: "\<not> ?t AND (?t - 1) > 0" by simp
    from none brk have nb: "\<not> tail_break ta K nsb fltr L Xi p" by simp
    from total none have tc: "offending_count ta K nsb fltr L Xi p = ?c" by simp
    show ?thesis
    proof (cases "mx \<and> al")
      case True
      then have ma: "mx" "al" by simp_all
      from ma(1) mx have "?c \<le> 1" by simp
      with al1[OF ma(2)] have "?c = 1" by linarith
      with tc have c1: "offending_count ta K nsb fltr L Xi p = 1" by simp
      from al ma(2) have "popcount ?fo = 1" by simp
      then have "?fo \<noteq> 0" by (auto simp: popcount_zero)
      with pos id1[OF ma] have "id1 = offending_position ta K nsb fltr L Xi p" by simp
      with step z nm ma c1 nb IH[of id1 "cands @ [id1]"] show ?thesis
        by (simp del: offending_patches.simps)
    next
      case False
      have c1: "offending_count ta K nsb fltr L Xi p \<noteq> 1"
      proof
        assume "offending_count ta K nsb fltr L Xi p = 1"
        with tc have e: "?c = 1" by simp
        then have "?c \<le> 1" by linarith
        with mx al2[OF e] False show False by blast
      qed
      from False have "(if mx \<and> al then cands @ [id1] else cands) = cands" by simp
      with step z nm c1 nb IH[of id1 cands] show ?thesis
        by (simp del: offending_patches.simps)
    qed
  qed
qed

lemma first_offending_map:
  "first_offending (map f ks) = (case filter (\<lambda>k. f k \<noteq> 0) ks of [] \<Rightarrow> 0 | k # _ \<Rightarrow> f k)"
  by (induction ks) (simp_all add: first_offending_Cons, simp add: first_offending_def)

lemma log2_u32_zero: "log2_u32 0 = 0"
  by (simp add: log2_u32_def floor_log2.simps[of 0])

lemma offending_literal_position:
  "offending_literal ta K nsb fltr L Xi p mod 32 = offending_position ta K nsb fltr L Xi p"
  unfolding offending_literal_def offending_position_def first_offending_map
  by (simp add: log2_u32_zero log2_u32_less split: list.splits)

lemma offending_literal_bit:
  assumes "offending_count ta K nsb fltr L Xi p = 1"
  shows "offending_literal ta K nsb fltr L Xi p div 32 < K
       \<and> offending_word ta K nsb fltr L Xi p (offending_literal ta K nsb fltr L Xi p div 32)
           = 2 ^ (offending_literal ta K nsb fltr L Xi p mod 32)"
proof -
  let ?f = "offending_word ta K nsb fltr L Xi p"
  from assms have "sum_list (map popcount (map ?f [0..<K])) = 1" by (simp add: offending_count_def comp_def)
  from first_offending_single[OF this] have o: "popcount (first_offending (map ?f [0..<K])) = 1" by simp
  then have nz: "first_offending (map ?f [0..<K]) \<noteq> 0" by (auto simp: popcount_zero)
  then obtain k ks where fl: "filter (\<lambda>k. ?f k \<noteq> 0) [0..<K] = k # ks"
    unfolding first_offending_map by (cases "filter (\<lambda>k. ?f k \<noteq> 0) [0..<K]") auto
  then have "k \<in> set (filter (\<lambda>k. ?f k \<noteq> 0) [0..<K])" by simp
  then have k: "k < K" by simp
  from fl have fo: "first_offending (map ?f [0..<K]) = ?f k" by (simp add: first_offending_map)
  from fl have ol: "offending_literal ta K nsb fltr L Xi p = 32 * k + log2_u32 (?f k)"
    by (simp add: offending_literal_def)
  from o fo have "popcount (?f k) = 1" by simp
  from single_bit_position[OF this] have e: "?f k = 2 ^ log2_u32 (?f k)" .
  have d: "(32 * k + log2_u32 (?f k)) div 32 = k" "(32 * k + log2_u32 (?f k)) mod 32 = log2_u32 (?f k)"
    using log2_u32_less[of "?f k"] by simp_all
  from k e show ?thesis unfolding ol d by simp
qed

lemma offending_literal_range:
  assumes F: "0 < F"
    and c: "offending_count ta (ta_chunks F) nsb (tail_filter F) L Xi p = 1"
  shows "offending_literal ta (ta_chunks F) nsb (tail_filter F) L Xi p < F"
proof -
  let ?K = "ta_chunks F"
  let ?f = "offending_word ta ?K nsb (tail_filter F) L Xi p"
  let ?ol = "offending_literal ta ?K nsb (tail_filter F) L Xi p"
  from offending_literal_bit[OF c] have k: "?ol div 32 < ?K" and e: "?f (?ol div 32) = 2 ^ (?ol mod 32)"
    by simp_all
  have s: "?ol = 32 * (?ol div 32) + ?ol mod 32" by simp
  show ?thesis
  proof (cases "?ol div 32 = ?K - 1")
    case True
    have "bit ((2::u32) ^ (?ol mod 32)) (?ol mod 32)" by (simp add: bit_exp_iff)
    with e have "bit (?f (?K - 1)) (?ol mod 32)" by (simp add: True)
    then have "bit (tail_filter F) (?ol mod 32)"
      by (auto simp: offending_word_def Let_def bit_xor_iff bit_and_iff)
    from tail_literal[OF F this] show ?thesis using True s by simp
  next
    case False
    with k have "?ol div 32 < ?K - 1" by simp
    from nontail_literal[OF this, of "?ol mod 32"] s show ?thesis by simp
  qed
qed

lemma single_false_literal_exact:
  assumes "0 < K"
  shows "cb_calculate_clause_output_single_false_literal ta K nsb fltr P L Xi g =
           (let sel = filter (\<lambda>p. offending_count ta K nsb fltr L Xi p = 1)
                        (takeWhile (\<lambda>p. \<not> tail_break ta K nsb fltr L Xi p) [0..<P])
            in if sel = [] then (- 1, g)
               else (int (offending_literal ta K nsb fltr L Xi (sel ! (unat (fst (fast_rand g)) mod length sel)) mod 32),
                     snd (fast_rand g)))"
proof -
  let ?sel = "filter (\<lambda>p. offending_count ta K nsb fltr L Xi p = 1)
                (takeWhile (\<lambda>p. \<not> tail_break ta K nsb fltr L Xi p) [0..<P])"
  have c: "offending_patches ta K nsb fltr L Xi [0..<P] 0 [] = map (offending_position ta K nsb fltr L Xi) ?sel"
    using scan_patches_exact[OF assms, of ta nsb fltr L Xi "[0..<P]" 0 "[]"] by simp
  show ?thesis
  proof (cases "?sel = []")
    case True
    then show ?thesis
      by (simp add: cb_calculate_clause_output_single_false_literal_def c Let_def)
  next
    case False
    then have "unat (fst (fast_rand g)) mod length ?sel < length ?sel" by simp
    then have "map (offending_position ta K nsb fltr L Xi) ?sel ! (unat (fst (fast_rand g)) mod length ?sel)
             = offending_literal ta K nsb fltr L Xi (?sel ! (unat (fst (fast_rand g)) mod length ?sel)) mod 32"
      by (simp only: nth_map offending_literal_position)
    with False show ?thesis
      by (simp add: cb_calculate_clause_output_single_false_literal_def c Let_def split_beta)
  qed
qed

subsection \<open>A whole Type II call, clause by clause\<close>

text \<open>
  The iterations before clause \<open>j\<close> leave the region of clause \<open>j\<close> and everything after it
  alone, and the iterations after it leave its region alone, so a whole call can be read
  off clause by clause.
\<close>

lemma type_ii_clauses_outside:
  "(\<forall>j\<in>set js. a < j * ta_chunks F * nsb \<or> j * ta_chunks F * nsb + ta_chunks F * nsb \<le> a) \<Longrightarrow>
   fst (fold (type_ii_clause F nsb P ex ca L Xi) js (ta, g)) a = ta a"
proof (induction js arbitrary: ta g)
  case Nil show ?case by simp
next
  case (Cons j js)
  obtain t1 g1 where 1: "type_ii_clause F nsb P ex ca L Xi j (ta, g) = (t1, g1)"
    by (cases "type_ii_clause F nsb P ex ca L Xi j (ta, g)")
  from Cons.prems have o: "a < j * ta_chunks F * nsb \<or> j * ta_chunks F * nsb + ta_chunks F * nsb \<le> a"
    and r: "\<forall>j\<in>set js. a < j * ta_chunks F * nsb \<or> j * ta_chunks F * nsb + ta_chunks F * nsb \<le> a"
    by simp_all
  from type_ii_clause_outside[OF o, of P ex ca L Xi ta g] 1 have "t1 a = ta a" by simp
  with Cons.IH[OF r, of t1 g1] 1 show ?case by simp
qed

lemma region_below: "j' < j \<Longrightarrow> j * K * nsb \<le> a \<Longrightarrow> j' * K * nsb + K * nsb \<le> (a::nat)"
proof -
  assume "j' < j" and a: "j * K * nsb \<le> a"
  then have "Suc j' \<le> j" by simp
  then have "Suc j' * (K * nsb) \<le> j * (K * nsb)" by (rule mult_le_mono1)
  with a show ?thesis by (simp add: mult.assoc)
qed

lemma region_above: "j < j' \<Longrightarrow> a < j * K * nsb + K * nsb \<Longrightarrow> (a::nat) < j' * K * nsb"
proof -
  assume "j < j'" and a: "a < j * K * nsb + K * nsb"
  then have "Suc j \<le> j'" by simp
  then have "Suc j * (K * nsb) \<le> j' * (K * nsb)" by (rule mult_le_mono1)
  with a show ?thesis by (simp add: mult.assoc)
qed

lemma cb_type_ii_prefix:
  assumes "j * ta_chunks F * nsb \<le> a"
  shows "fst (cb_type_ii_feedback ta j F nsb P ex ca L Xi g) a = ta a"
  unfolding cb_type_ii_feedback_def
proof (rule type_ii_clauses_outside, rule ballI)
  fix j' assume "j' \<in> set [0..<j]"
  then have "j' < j" by simp
  from region_below[OF this assms]
  show "a < j' * ta_chunks F * nsb \<or> j' * ta_chunks F * nsb + ta_chunks F * nsb \<le> a" by simp
qed

lemma cb_type_ii_beyond:
  assumes "C * ta_chunks F * nsb \<le> a"
  shows "fst (cb_type_ii_feedback ta C F nsb P ex ca L Xi g) a = ta a"
  using assms by (rule cb_type_ii_prefix)

lemma cb_type_ii_split:
  assumes "j < C"
  shows "cb_type_ii_feedback ta C F nsb P ex ca L Xi g
       = fold (type_ii_clause F nsb P ex ca L Xi) [Suc j..<C]
           (type_ii_clause F nsb P ex ca L Xi j (cb_type_ii_feedback ta j F nsb P ex ca L Xi g))"
proof -
  from assms have "[0..<C] = [0..<j] @ j # [Suc j..<C]"
    using upt_add_eq_append[of 0 j "C - j"] upt_conv_Cons[of j C] by simp
  then show ?thesis by (simp add: cb_type_ii_feedback_def)
qed

lemma cb_type_ii_exact:
  assumes j: "j < C" and k: "k < ta_chunks F" and i: "i < 32"
  shows "counter (fst (cb_type_ii_feedback ta C F nsb P ex ca L Xi g)) (j * ta_chunks F * nsb + k * nsb) nsb i
       = (let u = fast_rand (snd (cb_type_ii_feedback ta j F nsb P ex ca L Xi g))
          in if ex (fst u) \<or> ca j = 0 then counter ta (j * ta_chunks F * nsb + k * nsb) nsb i
             else case fst (cb_calculate_clause_output_feedback (at_offset ta (j * ta_chunks F * nsb))
                              (ta_chunks F) nsb (tail_filter F) P L Xi (snd u)) of
                    None \<Rightarrow> counter ta (j * ta_chunks F * nsb + k * nsb) nsb i
                  | Some p \<Rightarrow>
                      if bit (L k AND NOT (Xi (p * ta_chunks F + k))
                                AND NOT (ta (j * ta_chunks F * nsb + k * nsb + nsb - 1))) i
                      then min (counter ta (j * ta_chunks F * nsb + k * nsb) nsb i + 1) (2 ^ nsb - 1)
                      else counter ta (j * ta_chunks F * nsb + k * nsb) nsb i)"
proof -
  let ?K = "ta_chunks F"
  let ?cp = "j * ?K * nsb"
  let ?f = "type_ii_clause F nsb P ex ca L Xi"
  obtain tj gj where s: "cb_type_ii_feedback ta j F nsb P ex ca L Xi g = (tj, gj)"
    by (cases "cb_type_ii_feedback ta j F nsb P ex ca L Xi g")
  have pre: "\<And>a. ?cp \<le> a \<Longrightarrow> tj a = ta a"
    using cb_type_ii_prefix[of j F nsb _ ta P ex ca L Xi g] s by simp
  have off: "at_offset tj ?cp = at_offset ta ?cp"
    by (rule ext) (simp add: at_offset_def pre)
  have "?cp \<le> ?cp + k * nsb + nsb - 1" by (cases nsb) simp_all
  then have "tj (?cp + k * nsb + nsb - 1) = ta (?cp + k * nsb + nsb - 1)" by (rule pre)
  then have top: "tj (?cp + k * nsb + nsb - Suc 0) = ta (?cp + k * nsb + nsb - Suc 0)" by simp
  have cnt: "counter tj (?cp + k * nsb) nsb i = counter ta (?cp + k * nsb) nsb i"
    by (rule counter_cong) (simp add: pre)
  obtain t1 g1 where 1: "?f j (tj, gj) = (t1, g1)" by (cases "?f j (tj, gj)")
  have post: "counter (fst (fold ?f [Suc j..<C] (t1, g1))) (?cp + k * nsb) nsb i = counter t1 (?cp + k * nsb) nsb i"
  proof (rule counter_cong)
    fix a assume l: "?cp + k * nsb \<le> a" and u: "a < ?cp + k * nsb + nsb"
    from stripe_in_region[OF k l u] have r: "a < ?cp + ?K * nsb" by simp
    show "fst (fold ?f [Suc j..<C] (t1, g1)) a = t1 a"
    proof (rule type_ii_clauses_outside, rule ballI)
      fix j' assume "j' \<in> set [Suc j..<C]"
      then have "j < j'" by simp
      from region_above[OF this r]
      show "a < j' * ?K * nsb \<or> j' * ?K * nsb + ?K * nsb \<le> a" by simp
    qed
  qed
  have "t1 = fst (?f j (tj, gj))" by (simp add: 1)
  then have step: "counter t1 (?cp + k * nsb) nsb i
       = (if ex (fst (fast_rand gj)) \<or> ca j = 0 then counter ta (?cp + k * nsb) nsb i
          else case fst (cb_calculate_clause_output_feedback (at_offset ta ?cp) ?K nsb (tail_filter F) P L Xi
                           (snd (fast_rand gj))) of
                 None \<Rightarrow> counter ta (?cp + k * nsb) nsb i
               | Some p \<Rightarrow>
                   if bit (L k AND NOT (Xi (p * ?K + k)) AND NOT (ta (?cp + k * nsb + nsb - 1))) i
                   then min (counter ta (?cp + k * nsb) nsb i + 1) (2 ^ nsb - 1)
                   else counter ta (?cp + k * nsb) nsb i)"
    by (simp add: type_ii_clause_eq Let_def off cnt type_ii_chunks_counter[OF k i] top split: option.splits)
  show ?thesis
    unfolding cb_type_ii_split[OF j, of ta F nsb P ex ca L Xi g] s 1 post step
    by (simp add: Let_def)
qed

subsection \<open>Inactive clauses\<close>

text \<open>
  Claim C8. Let \<open>clause_active[j] = 0\<close>. A Type I call that returns, every Type II call and
  every Type III call leave each word of \<open>ta_state[j,...]\<close> as it was; Type III, the only
  one that is handed \<^verbatim>\<open>ind_state\<close> and \<^verbatim>\<open>clause_and_target\<close>, also leaves \<open>ind_state[j,...]\<close>
  and \<open>clause_and_target[j,...]\<close> as they were. The other clauses may be active.
\<close>

theorem inactive_clause_untouched:
  assumes "clause_active j = 0"
  shows "(\<forall>s' a. cb_type_i_feedback ta fb C F nsb P ex boost clause_active L Xi g = Some s'
            \<longrightarrow> j * ta_chunks F * nsb \<le> a \<longrightarrow> a < j * ta_chunks F * nsb + ta_chunks F * nsb
            \<longrightarrow> fst s' a = ta a)
       \<and> (\<forall>a. j * ta_chunks F * nsb \<le> a \<longrightarrow> a < j * ta_chunks F * nsb + ta_chunks F * nsb
            \<longrightarrow> fst (cb_type_ii_feedback ta C F nsb P ex clause_active L Xi g) a = ta a)
       \<and> (\<forall>a. j * ta_chunks F * nsb \<le> a \<longrightarrow> a < j * ta_chunks F * nsb + ta_chunks F * nsb
            \<longrightarrow> fst (cb_type_iii_feedback ta ind cat C F nsb nsbi P ex wd clause_active L Xi target g) a = ta a)
       \<and> (\<forall>a. j * ta_chunks F * nsbi \<le> a \<longrightarrow> a < j * ta_chunks F * nsbi + ta_chunks F * nsbi
            \<longrightarrow> fst (snd (cb_type_iii_feedback ta ind cat C F nsb nsbi P ex wd clause_active L Xi target g)) a
                = ind a)
       \<and> (\<forall>a. j * ta_chunks F \<le> a \<longrightarrow> a < j * ta_chunks F + ta_chunks F
            \<longrightarrow> fst (snd (snd (cb_type_iii_feedback ta ind cat C F nsb nsbi P ex wd clause_active L Xi target g))) a
                = cat a)"
proof -
  obtain t3 i3 c3 g3 where r: "cb_type_iii_feedback ta ind cat C F nsb nsbi P ex wd clause_active L Xi target g
      = (t3, i3, c3, g3)"
    by (cases "cb_type_iii_feedback ta ind cat C F nsb nsbi P ex wd clause_active L Xi target g") auto
  note iii = cb_type_iii_inactive[where ca=clause_active and j=j, OF r assms]
  have 1: "\<forall>s' a. cb_type_i_feedback ta fb C F nsb P ex boost clause_active L Xi g = Some s'
            \<longrightarrow> j * ta_chunks F * nsb \<le> a \<longrightarrow> a < j * ta_chunks F * nsb + ta_chunks F * nsb
            \<longrightarrow> fst s' a = ta a"
  proof (intro allI impI)
    fix s' :: "store \<times> store \<times> prng" and a
    assume e: "cb_type_i_feedback ta fb C F nsb P ex boost clause_active L Xi g = Some s'"
      and l: "j * ta_chunks F * nsb \<le> a" and u: "a < j * ta_chunks F * nsb + ta_chunks F * nsb"
    obtain t1 f1 g1 where s: "s' = (t1, f1, g1)" by (cases s') auto
    from cb_type_i_inactive[where ca=clause_active and j=j, OF e[unfolded s] assms l u] show "fst s' a = ta a" by (simp add: s)
  qed
  have 2: "\<forall>a. j * ta_chunks F * nsb \<le> a \<longrightarrow> a < j * ta_chunks F * nsb + ta_chunks F * nsb
            \<longrightarrow> fst (cb_type_ii_feedback ta C F nsb P ex clause_active L Xi g) a = ta a"
    using cb_type_ii_inactive[where ca=clause_active and j=j, OF assms] by blast
  from 1 2 iii show ?thesis unfolding r by simp
qed

theorem inactive_clause_untouched_witness:
  "two_clauses 1 = 0
   \<and> \<not> Option.is_none (cb_type_i_feedback (\<lambda>_. 0) (\<lambda>_. 0) 2 4 2 1 (\<lambda>_. False) 0 two_clauses (\<lambda>_. 15) (\<lambda>_. 5) counting_prng)
   \<and> fst (the (cb_type_i_feedback (\<lambda>_. 0) (\<lambda>_. 0) 2 4 2 1 (\<lambda>_. False) 0 two_clauses (\<lambda>_. 15) (\<lambda>_. 5) counting_prng)) 0 = 1
   \<and> fst (the (cb_type_i_feedback (\<lambda>_. 0) (\<lambda>_. 0) 2 4 2 1 (\<lambda>_. False) 0 two_clauses (\<lambda>_. 15) (\<lambda>_. 5) counting_prng)) 2 = 0
   \<and> fst (cb_type_ii_feedback (\<lambda>_. 0) 2 4 2 1 (\<lambda>_. False) two_clauses (\<lambda>_. 15) (\<lambda>_. 5) counting_prng) 0 = 10
   \<and> fst (cb_type_ii_feedback (\<lambda>_. 0) 2 4 2 1 (\<lambda>_. False) two_clauses (\<lambda>_. 15) (\<lambda>_. 5) counting_prng) 3 = 0
   \<and> fst (cb_type_iii_feedback (\<lambda>_. 1) (\<lambda>_. 0) (\<lambda>_. 0) 2 4 2 2 1 (\<lambda>_. False) (\<lambda>_. True) two_clauses
            (\<lambda>_. 15) (\<lambda>_. 5) 1 counting_prng) 0 = 0
   \<and> fst (cb_type_iii_feedback (\<lambda>_. 1) (\<lambda>_. 0) (\<lambda>_. 0) 2 4 2 2 1 (\<lambda>_. False) (\<lambda>_. True) two_clauses
            (\<lambda>_. 15) (\<lambda>_. 5) 1 counting_prng) 2 = 1
   \<and> fst (snd (snd (cb_type_iii_feedback (\<lambda>_. 1) (\<lambda>_. 0) (\<lambda>_. 0) 2 4 2 2 1 (\<lambda>_. False) (\<lambda>_. True) two_clauses
            (\<lambda>_. 15) (\<lambda>_. 5) 1 counting_prng))) 0 = - 1
   \<and> fst (snd (snd (cb_type_iii_feedback (\<lambda>_. 1) (\<lambda>_. 0) (\<lambda>_. 0) 2 4 2 2 1 (\<lambda>_. False) (\<lambda>_. True) two_clauses
            (\<lambda>_. 15) (\<lambda>_. 5) 1 counting_prng))) 1 = 0"
proof -
  have h: "two_clauses 1 = 0" by (simp add: two_clauses_def)
  have k: "ta_chunks 4 = 1" by (simp add: ta_chunks_def)
  have n: "\<not> Option.is_none (cb_type_i_feedback (\<lambda>_. 0) (\<lambda>_. 0) 2 4 2 1 (\<lambda>_. False) 0 two_clauses (\<lambda>_. 15) (\<lambda>_. 5) counting_prng)"
    by code_simp
  then obtain s' where e: "cb_type_i_feedback (\<lambda>_. 0) (\<lambda>_. 0) 2 4 2 1 (\<lambda>_. False) 0 two_clauses (\<lambda>_. 15) (\<lambda>_. 5) counting_prng = Some s'"
    by (auto simp: Option.is_none_def)
  have v: "fst (the (cb_type_i_feedback (\<lambda>_. 0) (\<lambda>_. 0) 2 4 2 1 (\<lambda>_. False) 0 two_clauses (\<lambda>_. 15) (\<lambda>_. 5) counting_prng)) 0 = 1"
     "fst (cb_type_ii_feedback (\<lambda>_. 0) 2 4 2 1 (\<lambda>_. False) two_clauses (\<lambda>_. 15) (\<lambda>_. 5) counting_prng) 0 = 10"
     "fst (cb_type_iii_feedback (\<lambda>_. 1) (\<lambda>_. 0) (\<lambda>_. 0) 2 4 2 2 1 (\<lambda>_. False) (\<lambda>_. True) two_clauses
            (\<lambda>_. 15) (\<lambda>_. 5) 1 counting_prng) 0 = 0"
     "fst (snd (snd (cb_type_iii_feedback (\<lambda>_. 1) (\<lambda>_. 0) (\<lambda>_. 0) 2 4 2 2 1 (\<lambda>_. False) (\<lambda>_. True) two_clauses
            (\<lambda>_. 15) (\<lambda>_. 5) 1 counting_prng))) 0 = - 1"
    by code_simp+
  note t = inactive_clause_untouched[where clause_active=two_clauses and j=1 and C=2 and F=4 and nsb=2 and P=1
              and ex="\<lambda>_. False" and L="\<lambda>_. 15" and Xi="\<lambda>_. 5" and g=counting_prng and nsbi=2
              and wd="\<lambda>_. True" and target=1 and ind="\<lambda>_. 0" and cat="\<lambda>_. 0" and fb="\<lambda>_. 0" and boost=0, OF h]
  have a: "fst s' 2 = 0"
    using t[where ta="\<lambda>_. 0", THEN conjunct1, rule_format, OF e, of 2] by (simp add: k)
  have a2: "fst (cb_type_ii_feedback (\<lambda>_. 0) 2 4 2 1 (\<lambda>_. False) two_clauses (\<lambda>_. 15) (\<lambda>_. 5) counting_prng) 3 = 0"
    using t[where ta="\<lambda>_. 0", THEN conjunct2, THEN conjunct1, rule_format, of 3] by (simp add: k)
  have b: "fst (cb_type_iii_feedback (\<lambda>_. 1) (\<lambda>_. 0) (\<lambda>_. 0) 2 4 2 2 1 (\<lambda>_. False) (\<lambda>_. True) two_clauses
            (\<lambda>_. 15) (\<lambda>_. 5) 1 counting_prng) 2 = 1"
    using t[where ta="\<lambda>_. 1", THEN conjunct2, THEN conjunct2, THEN conjunct1, rule_format, of 2] by (simp add: k)
  have b2: "fst (snd (snd (cb_type_iii_feedback (\<lambda>_. 1) (\<lambda>_. 0) (\<lambda>_. 0) 2 4 2 2 1 (\<lambda>_. False) (\<lambda>_. True) two_clauses
            (\<lambda>_. 15) (\<lambda>_. 5) 1 counting_prng))) 1 = 0"
    using t[where ta="\<lambda>_. 1", THEN conjunct2, THEN conjunct2, THEN conjunct2, THEN conjunct2, rule_format, of 1]
    by (simp add: k)
  from h n v a a2 b b2 e show ?thesis by simp
qed

subsection \<open>Literal positions beyond \<open>F - 1\<close>\<close>

text \<open>
  Claim C4, refuted as stated. \<open>F = 4\<close>, one clause, one patch, one state bit, all TA state
  zero, \<open>literal_active\<close> all ones, \<open>Xi = 0\<close>. Before the Type II call every action bit at a
  position \<open>\<ge> 4\<close> is zero; after it the action bit at position 4 is set. No feedback
  routine applies the tail filter to its masks.
\<close>

theorem feedback_activates_padding_literal:
  "(\<lambda>_. 0 :: u32) 0 AND NOT (tail_filter 4) = 0
   \<and> bit (fst (cb_type_ii_feedback (\<lambda>_. 0) 1 4 1 1 (\<lambda>_. False) (\<lambda>_. 1) (\<lambda>_. - 1) (\<lambda>_. 0) counting_prng) 0) 4"
  by code_simp

text \<open>
  Claim C4, amended. Suppose \<open>literal_active\<close> has no bit at the positions of the tail chunk
  that the filter excludes (the positions \<open>\<ge> F\<close>). Then for every clause \<open>j\<close> and every bit
  plane \<open>b\<close>, a Type I call that returns, every Type II call and every Type III call leave
  the bits at those positions of the tail-chunk word unchanged, for any \<open>Xi\<close>. In
  particular action bits beyond \<open>F - 1\<close> that are 0 before the call are 0 after it.
\<close>

theorem padding_lanes_keep_state:
  assumes "L (ta_chunks F - 1) AND NOT (tail_filter F) = 0" and "b < nsb"
  shows "(\<forall>s'. cb_type_i_feedback ta fb C F nsb P ex boost ca L Xi g = Some s' \<longrightarrow>
            fst s' (j * ta_chunks F * nsb + (ta_chunks F - 1) * nsb + b) AND NOT (tail_filter F)
            = ta (j * ta_chunks F * nsb + (ta_chunks F - 1) * nsb + b) AND NOT (tail_filter F))
       \<and> fst (cb_type_ii_feedback ta C F nsb P ex ca L Xi g)
             (j * ta_chunks F * nsb + (ta_chunks F - 1) * nsb + b) AND NOT (tail_filter F)
           = ta (j * ta_chunks F * nsb + (ta_chunks F - 1) * nsb + b) AND NOT (tail_filter F)
       \<and> fst (cb_type_iii_feedback ta ind cat C F nsb nsbi P ex wd ca L Xi target g)
             (j * ta_chunks F * nsb + (ta_chunks F - 1) * nsb + b) AND NOT (tail_filter F)
           = ta (j * ta_chunks F * nsb + (ta_chunks F - 1) * nsb + b) AND NOT (tail_filter F)"
proof -
  let ?k = "ta_chunks F - 1"
  let ?a = "j * ta_chunks F * nsb + ?k * nsb + b"
  have k: "?k < ta_chunks F" using ta_chunks_pos[of F] by simp
  have l: "j * ta_chunks F * nsb + ?k * nsb \<le> ?a" by simp
  have u: "?a < j * ta_chunks F * nsb + ?k * nsb + nsb" using assms(2) by simp
  have m: "\<And>i. \<not> bit (tail_filter F) i \<Longrightarrow> \<not> bit (L ?k) i"
  proof
    fix i assume n: "\<not> bit (tail_filter F) i" and s: "bit (L ?k) i"
    from s have "i < 32" by (auto dest: bit_imp_le_length)
    with n s have "bit (L ?k AND NOT (tail_filter F)) i" by (simp add: bit_and_iff bit_not_iff)
    with assms(1) show False by simp
  qed
  have eq: "\<And>t'. (\<And>i. \<not> bit (L ?k) i \<Longrightarrow> bit (t' ?a) i = bit (ta ?a) i) \<Longrightarrow>
              t' ?a AND NOT (tail_filter F) = ta ?a AND NOT (tail_filter F)"
  proof -
    fix t' :: store assume h: "\<And>i. \<not> bit (L ?k) i \<Longrightarrow> bit (t' ?a) i = bit (ta ?a) i"
    show "t' ?a AND NOT (tail_filter F) = ta ?a AND NOT (tail_filter F)"
    proof (rule bit_word_eqI)
      fix i assume "i < LENGTH(32)"
      show "bit (t' ?a AND NOT (tail_filter F)) i = bit (ta ?a AND NOT (tail_filter F)) i"
      proof (cases "bit (tail_filter F) i")
        case True then show ?thesis by (simp add: bit_and_iff bit_not_iff)
      next
        case False
        from h[OF m[OF False]] show ?thesis by (simp add: bit_and_iff)
      qed
    qed
  qed
  have 1: "\<forall>s'. cb_type_i_feedback ta fb C F nsb P ex boost ca L Xi g = Some s' \<longrightarrow>
            fst s' ?a AND NOT (tail_filter F) = ta ?a AND NOT (tail_filter F)"
  proof (intro allI impI)
    fix s' :: "store \<times> store \<times> prng"
    assume e: "cb_type_i_feedback ta fb C F nsb P ex boost ca L Xi g = Some s'"
    obtain t1 f1 g1 where s: "s' = (t1, f1, g1)" by (cases s') auto
    have "t1 ?a AND NOT (tail_filter F) = ta ?a AND NOT (tail_filter F)"
      by (rule eq) (rule cb_type_i_lane[where L=L and k="?k" and ?j0.0=j, OF e[unfolded s] k l u])
    then show "fst s' ?a AND NOT (tail_filter F) = ta ?a AND NOT (tail_filter F)" by (simp add: s)
  qed
  have 2: "fst (cb_type_ii_feedback ta C F nsb P ex ca L Xi g) ?a AND NOT (tail_filter F)
           = ta ?a AND NOT (tail_filter F)"
    by (rule eq) (rule cb_type_ii_lane[where L=L and k="?k" and ?j0.0=j, OF k l u])
  have 3: "fst (cb_type_iii_feedback ta ind cat C F nsb nsbi P ex wd ca L Xi target g) ?a AND NOT (tail_filter F)
           = ta ?a AND NOT (tail_filter F)"
    by (rule eq) (rule cb_type_iii_lane[where L=L and k="?k" and ?j0.0=j, OF k l u])
  from 1 2 3 show ?thesis by blast
qed

theorem padding_lanes_keep_state_witness:
  "(\<lambda>_. 15 :: u32) (ta_chunks 4 - 1) AND NOT (tail_filter 4) = 0 \<and> (0::nat) < 1
   \<and> \<not> Option.is_none (cb_type_i_feedback (\<lambda>_. 0) (\<lambda>_. 0) 1 4 1 1 (\<lambda>_. False) 1 (\<lambda>_. 1) (\<lambda>_. 15) (\<lambda>_. - 1) counting_prng)
   \<and> fst (the (cb_type_i_feedback (\<lambda>_. 0) (\<lambda>_. 0) 1 4 1 1 (\<lambda>_. False) 1 (\<lambda>_. 1) (\<lambda>_. 15) (\<lambda>_. - 1) counting_prng)) 0 = 15
   \<and> fst (the (cb_type_i_feedback (\<lambda>_. 0) (\<lambda>_. 0) 1 4 1 1 (\<lambda>_. False) 1 (\<lambda>_. 1) (\<lambda>_. 15) (\<lambda>_. - 1) counting_prng)) 0
         AND NOT (tail_filter 4) = 0
   \<and> fst (cb_type_ii_feedback (\<lambda>_. 0) 1 4 1 1 (\<lambda>_. False) (\<lambda>_. 1) (\<lambda>_. 15) (\<lambda>_. 0) counting_prng) 0 = 15
   \<and> fst (cb_type_ii_feedback (\<lambda>_. 0) 1 4 1 1 (\<lambda>_. False) (\<lambda>_. 1) (\<lambda>_. 15) (\<lambda>_. 0) counting_prng) 0
         AND NOT (tail_filter 4) = 0
   \<and> fst (cb_type_iii_feedback (\<lambda>_. - 1) (\<lambda>_. 0) (\<lambda>_. 0) 1 4 1 1 1 (\<lambda>_. False) (\<lambda>_. True) (\<lambda>_. 1)
            (\<lambda>_. 15) (\<lambda>_. - 1) 1 counting_prng) 0 = 0xfffffff0
   \<and> fst (cb_type_iii_feedback (\<lambda>_. - 1) (\<lambda>_. 0) (\<lambda>_. 0) 1 4 1 1 1 (\<lambda>_. False) (\<lambda>_. True) (\<lambda>_. 1)
            (\<lambda>_. 15) (\<lambda>_. - 1) 1 counting_prng) 0 AND NOT (tail_filter 4) = - 1 AND NOT (tail_filter 4)"
proof -
  have h: "(\<lambda>_. 15 :: u32) (ta_chunks 4 - 1) AND NOT (tail_filter 4) = 0" by code_simp
  have b: "(0::nat) < 1" by simp
  have k: "ta_chunks 4 = 1" by (simp add: ta_chunks_def)
  have n: "\<not> Option.is_none (cb_type_i_feedback (\<lambda>_. 0) (\<lambda>_. 0) 1 4 1 1 (\<lambda>_. False) 1 (\<lambda>_. 1) (\<lambda>_. 15) (\<lambda>_. - 1) counting_prng)"
    by code_simp
  then obtain s' where e: "cb_type_i_feedback (\<lambda>_. 0) (\<lambda>_. 0) 1 4 1 1 (\<lambda>_. False) 1 (\<lambda>_. 1) (\<lambda>_. 15) (\<lambda>_. - 1) counting_prng = Some s'"
    by (auto simp: Option.is_none_def)
  have v: "fst (the (cb_type_i_feedback (\<lambda>_. 0) (\<lambda>_. 0) 1 4 1 1 (\<lambda>_. False) 1 (\<lambda>_. 1) (\<lambda>_. 15) (\<lambda>_. - 1) counting_prng)) 0 = 15"
    "fst (cb_type_ii_feedback (\<lambda>_. 0) 1 4 1 1 (\<lambda>_. False) (\<lambda>_. 1) (\<lambda>_. 15) (\<lambda>_. 0) counting_prng) 0 = 15"
    "fst (cb_type_iii_feedback (\<lambda>_. - 1) (\<lambda>_. 0) (\<lambda>_. 0) 1 4 1 1 1 (\<lambda>_. False) (\<lambda>_. True) (\<lambda>_. 1)
            (\<lambda>_. 15) (\<lambda>_. - 1) 1 counting_prng) 0 = 0xfffffff0"
    by code_simp+
  note t = padding_lanes_keep_state[where L="\<lambda>_. 15" and F=4 and b=0 and nsb=1 and j=0 and C=1 and P=1
      and ex="\<lambda>_. False" and ca="\<lambda>_. 1" and g=counting_prng, OF h b]
  have 1: "fst s' 0 AND NOT (tail_filter 4) = 0"
    using t[where ta="\<lambda>_. 0" and Xi="\<lambda>_. - 1" and fb="\<lambda>_. 0" and boost=1, THEN conjunct1, rule_format, OF e]
    by (simp add: k)
  have 2: "fst (cb_type_ii_feedback (\<lambda>_. 0) 1 4 1 1 (\<lambda>_. False) (\<lambda>_. 1) (\<lambda>_. 15) (\<lambda>_. 0) counting_prng) 0
         AND NOT (tail_filter 4) = 0"
    using t[where ta="\<lambda>_. 0" and Xi="\<lambda>_. 0", THEN conjunct2, THEN conjunct1] by (simp add: k)
  have 3: "fst (cb_type_iii_feedback (\<lambda>_. - 1) (\<lambda>_. 0) (\<lambda>_. 0) 1 4 1 1 1 (\<lambda>_. False) (\<lambda>_. True) (\<lambda>_. 1)
            (\<lambda>_. 15) (\<lambda>_. - 1) 1 counting_prng) 0 AND NOT (tail_filter 4) = - 1 AND NOT (tail_filter 4)"
    using t[where ta="\<lambda>_. - 1" and Xi="\<lambda>_. - 1" and ind="\<lambda>_. 0" and cat="\<lambda>_. 0" and nsbi=1
              and wd="\<lambda>_. True" and target=1, THEN conjunct2, THEN conjunct2]
    by (simp add: k)
  from h b n v 1 2 3 e show ?thesis by simp
qed

subsection \<open>The last step of Type III feedback\<close>

text \<open>
  Claim C3, refuted as stated. \<open>F = 4\<close>, one clause, one patch, two TA state bits, one
  indicator bit. The TA of literal 0 has the value 1, so its action bit (plane 1) is 0:
  the literal is excluded. It is selected by \<open>literal_active\<close> and its indicator is low.
  After the Type III call its counter is 0: it was decremented.
\<close>

theorem excluded_literal_is_decremented:
  "\<not> bit ((((\<lambda>_. 0)(0 := 1)) :: store) 1) 0
   \<and> counter ((\<lambda>_. 0)(0 := 1)) 0 2 0 = 1
   \<and> counter (fst (cb_type_iii_feedback ((\<lambda>_. 0)(0 := 1)) (\<lambda>_. 0) (\<lambda>_. 0) 1 4 2 1 1 (\<lambda>_. False) (\<lambda>_. True)
                     (\<lambda>_. 1) (\<lambda>_. 1) (\<lambda>_. 0) 0 counting_prng)) 0 2 0 = 0"
  by code_simp

text \<open>
  Claim C3, amended. For an active clause that passes the \<^verbatim>\<open>update_p\<close> test, the last step
  of the Type III iteration is the loop of \<^verbatim>\<open>cb_dec\<close> calls over the chunks and nothing else;
  in every chunk \<open>k\<close> it decrements (stopping at 0) exactly the TA counters selected by
  \<open>literal_active[k] AND NOT top_plane(ind_state)\<close>, with \<open>ind_state\<close> as the earlier steps of
  the same iteration left it. The action bit of the TA plays no part: the TAs of excluded
  literals that the mask selects are decremented as well.
\<close>

theorem type_iii_final_decrement:
  assumes "clause_active j \<noteq> 0"
    and "type_iii_ledger F nsb_ta nsb_ind P within_d L Xi target j ta_state (ind_state, clause_and_target, g)
           = (ind2, cat2, g3)"
    and "\<not> exceeds_update_p (fst (fast_rand g3))"
    and "k < ta_chunks F" and "i < 32"
  shows "type_iii_clause F nsb_ta nsb_ind P exceeds_update_p within_d clause_active L Xi target j
           (ta_state, ind_state, clause_and_target, g)
         = (fold (type_iii_ta_dec (j * ta_chunks F * nsb_ta) (j * ta_chunks F * nsb_ind) nsb_ta nsb_ind ind2 L)
              [0..<ta_chunks F] ta_state, ind2, cat2, snd (fast_rand g3))
       \<and> counter (fst (type_iii_clause F nsb_ta nsb_ind P exceeds_update_p within_d clause_active L Xi target j
                        (ta_state, ind_state, clause_and_target, g)))
             (j * ta_chunks F * nsb_ta + k * nsb_ta) nsb_ta i
         = (if bit (L k AND NOT (ind2 (j * ta_chunks F * nsb_ind + k * nsb_ind + nsb_ind - 1))) i
            then counter ta_state (j * ta_chunks F * nsb_ta + k * nsb_ta) nsb_ta i - 1
            else counter ta_state (j * ta_chunks F * nsb_ta + k * nsb_ta) nsb_ta i)"
  unfolding type_iii_clause_active[where ca=clause_active and ex=exceeds_update_p, OF assms(1,2)]
  using assms(3) by (simp add: type_iii_ta_dec_counter[OF assms(4,5)])

theorem type_iii_final_decrement_witness:
  "(\<lambda>_. 1 :: u32) 0 \<noteq> 0
   \<and> \<not> (\<lambda>_. False) (fst (fast_rand (snd (snd (type_iii_ledger 4 2 1 1 (\<lambda>_. True) (\<lambda>_. 1) (\<lambda>_. 0) 0 0
                  ((\<lambda>_. 0)(0 := 1)) (\<lambda>_. 0, \<lambda>_. 0, counting_prng))))))
   \<and> (0::nat) < ta_chunks 4 \<and> (0::nat) < 32
   \<and> bit ((1::u32) AND NOT (fst (type_iii_ledger 4 2 1 1 (\<lambda>_. True) (\<lambda>_. 1) (\<lambda>_. 0) 0 0
                  ((\<lambda>_. 0)(0 := 1)) (\<lambda>_. 0, \<lambda>_. 0, counting_prng)) 0)) 0
   \<and> counter ((\<lambda>_. 0)(0 := 1)) 0 2 0 = 1
   \<and> counter (fst (type_iii_clause 4 2 1 1 (\<lambda>_. False) (\<lambda>_. True) (\<lambda>_. 1) (\<lambda>_. 1) (\<lambda>_. 0) 0 0
                     ((\<lambda>_. 0)(0 := 1), \<lambda>_. 0, \<lambda>_. 0, counting_prng))) 0 2 0 = 0"
proof -
  let ?r = "type_iii_ledger 4 2 1 1 (\<lambda>_. True) (\<lambda>_. 1) (\<lambda>_. 0) 0 0 ((\<lambda>_. 0)(0 := 1)) (\<lambda>_. 0, \<lambda>_. 0, counting_prng)"
  have a: "(\<lambda>_. 1 :: u32) 0 \<noteq> 0" by simp
  have l: "?r = (fst ?r, fst (snd ?r), snd (snd ?r))" by simp
  have g: "\<not> (\<lambda>_. False) (fst (fast_rand (snd (snd ?r))))" by simp
  have k: "(0::nat) < ta_chunks 4" by (rule ta_chunks_pos)
  have i: "(0::nat) < 32" by simp
  have e: "bit ((1::u32) AND NOT (fst ?r 0)) 0" "counter ((\<lambda>_. 0)(0 := 1)) 0 2 0 = 1" by code_simp+
  from type_iii_final_decrement[where clause_active="\<lambda>_. 1" and exceeds_update_p="\<lambda>_. False" and j=0 and L="\<lambda>_. 1"
         and k=0, OF a l g k i, THEN conjunct2] e a g k i
  show ?thesis by simp
qed

subsection \<open>What Type II and Type Ib do to the TA state\<close>

text \<open>
  Claim C7. A whole Type II call over \<open>C\<close> clauses: for every clause \<open>j < C\<close>, chunk \<open>k\<close> and
  lane \<open>i\<close>, the counter after the call is given in terms of the TA state before the call.
  If clause \<open>j\<close> passes the \<^verbatim>\<open>update_p\<close> test (on the draw it receives from the generator as
  the first \<open>j\<close> iterations left it), is active, and Feedback-mode evaluation returns patch
  \<open>p\<close>, the counter becomes \<open>min (v + 1) (2^nsb - 1)\<close> if bit \<open>i\<close> of
  \<open>literal_active[k] AND NOT Xi[p,k] AND NOT action[k]\<close> is set and keeps its value \<open>v\<close>
  otherwise; in every other case it keeps its value. No word beyond the \<open>C\<close> clauses
  changes. The same is stated for one clause iteration (\<open>type_ii_clause\<close>), with the words
  outside the clause's stripe unchanged. A whole Type II call never lowers a counter. A
  Type I iteration on the Type Ib path (no matching patch) never raises a counter. The
  signature of \<^verbatim>\<open>cb_type_i_feedback\<close> has no \<^verbatim>\<open>ind_state\<close> argument, and so the model of
  Type I has none: Type I can neither read nor write the indicator layer.
\<close>

theorem type_ii_only_increments:
  shows "(\<forall>p g2 k i.
            \<not> ex (fst (fast_rand g)) \<longrightarrow> clause_active j \<noteq> 0 \<longrightarrow>
            cb_calculate_clause_output_feedback (at_offset ta (j * ta_chunks F * nsb)) (ta_chunks F) nsb
               (tail_filter F) P L Xi (snd (fast_rand g)) = (Some p, g2) \<longrightarrow>
            k < ta_chunks F \<longrightarrow> i < 32 \<longrightarrow>
            counter (fst (type_ii_clause F nsb P ex clause_active L Xi j (ta, g)))
                (j * ta_chunks F * nsb + k * nsb) nsb i
            = (if bit (L k AND NOT (Xi (p * ta_chunks F + k))
                         AND NOT (ta (j * ta_chunks F * nsb + k * nsb + nsb - 1))) i
               then min (counter ta (j * ta_chunks F * nsb + k * nsb) nsb i + 1) (2 ^ nsb - 1)
               else counter ta (j * ta_chunks F * nsb + k * nsb) nsb i))
       \<and> (\<forall>a. a < j * ta_chunks F * nsb \<or> j * ta_chunks F * nsb + ta_chunks F * nsb \<le> a \<longrightarrow>
              fst (type_ii_clause F nsb P ex clause_active L Xi j (ta, g)) a = ta a)
       \<and> (ex (fst (fast_rand g)) \<or> clause_active j = 0
            \<or> fst (cb_calculate_clause_output_feedback (at_offset ta (j * ta_chunks F * nsb)) (ta_chunks F) nsb
                     (tail_filter F) P L Xi (snd (fast_rand g))) = None \<longrightarrow>
            fst (type_ii_clause F nsb P ex clause_active L Xi j (ta, g)) = ta)
       \<and> (\<forall>j' k i. k < ta_chunks F \<longrightarrow> i < 32 \<longrightarrow>
              counter ta (j' * ta_chunks F * nsb + k * nsb) nsb i
              \<le> counter (fst (cb_type_ii_feedback ta C F nsb P ex clause_active L Xi g))
                    (j' * ta_chunks F * nsb + k * nsb) nsb i)
       \<and> (\<forall>s' j' k i.
              type_i_clause F nsb P ex boost clause_active L Xi j (ta, fb, g) = Some s' \<longrightarrow>
              fst (cb_calculate_clause_output_feedback (at_offset ta (j * ta_chunks F * nsb)) (ta_chunks F) nsb
                     (tail_filter F) P L Xi (snd (fast_rand g))) = None \<longrightarrow>
              k < ta_chunks F \<longrightarrow> i < 32 \<longrightarrow>
              counter (fst s') (j' * ta_chunks F * nsb + k * nsb) nsb i
              \<le> counter ta (j' * ta_chunks F * nsb + k * nsb) nsb i)
       \<and> (\<forall>j' k i. j' < C \<longrightarrow> k < ta_chunks F \<longrightarrow> i < 32 \<longrightarrow>
              counter (fst (cb_type_ii_feedback ta C F nsb P ex clause_active L Xi g))
                  (j' * ta_chunks F * nsb + k * nsb) nsb i
              = (let u = fast_rand (snd (cb_type_ii_feedback ta j' F nsb P ex clause_active L Xi g))
                 in if ex (fst u) \<or> clause_active j' = 0 then counter ta (j' * ta_chunks F * nsb + k * nsb) nsb i
                    else case fst (cb_calculate_clause_output_feedback (at_offset ta (j' * ta_chunks F * nsb))
                                     (ta_chunks F) nsb (tail_filter F) P L Xi (snd u)) of
                           None \<Rightarrow> counter ta (j' * ta_chunks F * nsb + k * nsb) nsb i
                         | Some p \<Rightarrow>
                             if bit (L k AND NOT (Xi (p * ta_chunks F + k))
                                       AND NOT (ta (j' * ta_chunks F * nsb + k * nsb + nsb - 1))) i
                             then min (counter ta (j' * ta_chunks F * nsb + k * nsb) nsb i + 1) (2 ^ nsb - 1)
                             else counter ta (j' * ta_chunks F * nsb + k * nsb) nsb i))
       \<and> (\<forall>a. C * ta_chunks F * nsb \<le> a \<longrightarrow>
              fst (cb_type_ii_feedback ta C F nsb P ex clause_active L Xi g) a = ta a)"
proof -
  let ?K = "ta_chunks F"
  let ?cp = "j * ?K * nsb"
  let ?r = "cb_calculate_clause_output_feedback (at_offset ta ?cp) ?K nsb (tail_filter F) P L Xi (snd (fast_rand g))"
  have 1: "\<forall>p g2 k i.
            \<not> ex (fst (fast_rand g)) \<longrightarrow> clause_active j \<noteq> 0 \<longrightarrow> ?r = (Some p, g2) \<longrightarrow>
            k < ?K \<longrightarrow> i < 32 \<longrightarrow>
            counter (fst (type_ii_clause F nsb P ex clause_active L Xi j (ta, g))) (?cp + k * nsb) nsb i
            = (if bit (L k AND NOT (Xi (p * ?K + k)) AND NOT (ta (?cp + k * nsb + nsb - 1))) i
               then min (counter ta (?cp + k * nsb) nsb i + 1) (2 ^ nsb - 1)
               else counter ta (?cp + k * nsb) nsb i)"
  proof (intro allI impI)
    fix p :: nat and g2 :: prng and k i :: nat
    assume a: "\<not> ex (fst (fast_rand g))" "clause_active j \<noteq> 0" "?r = (Some p, g2)" and k: "k < ?K" and i: "i < 32"
    from a have "fst (type_ii_clause F nsb P ex clause_active L Xi j (ta, g))
        = fold (type_ii_chunk ?cp ?K nsb L Xi p) [0..<?K] ta"
      by (simp add: type_ii_clause_eq Let_def)
    then show "counter (fst (type_ii_clause F nsb P ex clause_active L Xi j (ta, g))) (?cp + k * nsb) nsb i
            = (if bit (L k AND NOT (Xi (p * ?K + k)) AND NOT (ta (?cp + k * nsb + nsb - 1))) i
               then min (counter ta (?cp + k * nsb) nsb i + 1) (2 ^ nsb - 1)
               else counter ta (?cp + k * nsb) nsb i)"
      by (simp only: type_ii_chunks_counter[OF k i])
  qed
  have 2: "\<forall>a. a < ?cp \<or> ?cp + ?K * nsb \<le> a \<longrightarrow>
              fst (type_ii_clause F nsb P ex clause_active L Xi j (ta, g)) a = ta a"
    using type_ii_clause_outside by blast
  have 3: "ex (fst (fast_rand g)) \<or> clause_active j = 0 \<or> fst ?r = None \<longrightarrow>
            fst (type_ii_clause F nsb P ex clause_active L Xi j (ta, g)) = ta"
    by (auto simp: type_ii_clause_eq Let_def)
  have 4: "\<forall>j' k i. k < ?K \<longrightarrow> i < 32 \<longrightarrow>
              counter ta (j' * ?K * nsb + k * nsb) nsb i
              \<le> counter (fst (cb_type_ii_feedback ta C F nsb P ex clause_active L Xi g)) (j' * ?K * nsb + k * nsb) nsb i"
  proof (intro allI impI)
    fix j' k i :: nat assume k: "k < ?K" and i: "i < 32"
    show "counter ta (j' * ?K * nsb + k * nsb) nsb i
          \<le> counter (fst (cb_type_ii_feedback ta C F nsb P ex clause_active L Xi g)) (j' * ?K * nsb + k * nsb) nsb i"
      unfolding cb_type_ii_feedback_def
      by (rule fold_mono_fst[where m="\<lambda>t. counter t (j' * ?K * nsb + k * nsb) nsb i"])
         (rule type_ii_clause_counter_mono[OF k i])
  qed
  have 5: "\<forall>s' j' k i.
              type_i_clause F nsb P ex boost clause_active L Xi j (ta, fb, g) = Some s' \<longrightarrow>
              fst ?r = None \<longrightarrow> k < ?K \<longrightarrow> i < 32 \<longrightarrow>
              counter (fst s') (j' * ?K * nsb + k * nsb) nsb i \<le> counter ta (j' * ?K * nsb + k * nsb) nsb i"
  proof (intro allI impI)
    fix s' :: "store \<times> store \<times> prng" and j' k i :: nat
    assume e: "type_i_clause F nsb P ex boost clause_active L Xi j (ta, fb, g) = Some s'"
      and n: "fst ?r = None" and k: "k < ?K" and i: "i < 32"
    obtain t1 f1 g1 where s: "s' = (t1, f1, g1)" by (cases s') auto
    show "counter (fst s') (j' * ?K * nsb + k * nsb) nsb i \<le> counter ta (j' * ?K * nsb + k * nsb) nsb i"
    proof (cases "j' = j")
      case True
      from e n have "t1 = ta \<or> (\<exists>m. t1 = fold (type_ib_chunk ?cp nsb m L) [0..<?K] ta)"
        by (auto simp: type_i_clause_eq Let_def s split: option.splits if_splits)
      then show ?thesis unfolding True s
        by (auto simp: type_ib_chunks_counter[OF k i])
    next
      case False
      have "counter t1 (j' * ?K * nsb + k * nsb) nsb i = counter ta (j' * ?K * nsb + k * nsb) nsb i"
      proof (rule counter_cong)
        fix a assume l: "j' * ?K * nsb + k * nsb \<le> a" and u: "a < j' * ?K * nsb + k * nsb + nsb"
        from stripe_in_region[OF k l u] region_disjoint[OF False, of ?K nsb a]
        have "a < ?cp \<or> ?cp + ?K * nsb \<le> a" by blast
        then show "t1 a = ta a" by (rule type_i_clause_outside[OF e[unfolded s]])
      qed
      then show ?thesis by (simp add: s)
    qed
  qed
  have 6: "\<forall>j' k i. j' < C \<longrightarrow> k < ?K \<longrightarrow> i < 32 \<longrightarrow>
              counter (fst (cb_type_ii_feedback ta C F nsb P ex clause_active L Xi g)) (j' * ?K * nsb + k * nsb) nsb i
              = (let u = fast_rand (snd (cb_type_ii_feedback ta j' F nsb P ex clause_active L Xi g))
                 in if ex (fst u) \<or> clause_active j' = 0 then counter ta (j' * ?K * nsb + k * nsb) nsb i
                    else case fst (cb_calculate_clause_output_feedback (at_offset ta (j' * ?K * nsb))
                                     ?K nsb (tail_filter F) P L Xi (snd u)) of
                           None \<Rightarrow> counter ta (j' * ?K * nsb + k * nsb) nsb i
                         | Some p \<Rightarrow>
                             if bit (L k AND NOT (Xi (p * ?K + k)) AND NOT (ta (j' * ?K * nsb + k * nsb + nsb - 1))) i
                             then min (counter ta (j' * ?K * nsb + k * nsb) nsb i + 1) (2 ^ nsb - 1)
                             else counter ta (j' * ?K * nsb + k * nsb) nsb i)"
    by (intro allI impI) (rule cb_type_ii_exact)
  have 7: "\<forall>a. C * ?K * nsb \<le> a \<longrightarrow> fst (cb_type_ii_feedback ta C F nsb P ex clause_active L Xi g) a = ta a"
    by (intro allI impI) (rule cb_type_ii_beyond)
  from 1 2 3 4 5 6 7 show ?thesis by (intro conjI)
qed


theorem type_ii_only_increments_witness:
  "\<not> (\<lambda>_. False) (fst (fast_rand counting_prng)) \<and> (\<lambda>_. 1 :: u32) 0 \<noteq> 0
   \<and> fst (cb_calculate_clause_output_feedback (at_offset (\<lambda>_. 0) (0 * ta_chunks 4 * 2)) (ta_chunks 4) 2
            (tail_filter 4) 1 (\<lambda>_. 15) (\<lambda>_. 5) (snd (fast_rand counting_prng))) = Some 0
   \<and> bit ((15::u32) AND NOT 5 AND NOT 0) 1 \<and> \<not> bit ((15::u32) AND NOT 5 AND NOT 0) 0
   \<and> counter (fst (type_ii_clause 4 2 1 (\<lambda>_. False) (\<lambda>_. 1) (\<lambda>_. 15) (\<lambda>_. 5) 0 (\<lambda>_. 0, counting_prng))) 0 2 1 = 1
   \<and> counter (fst (type_ii_clause 4 2 1 (\<lambda>_. False) (\<lambda>_. 1) (\<lambda>_. 15) (\<lambda>_. 5) 0 (\<lambda>_. 0, counting_prng))) 0 2 0 = 0
   \<and> fst (type_ii_clause 4 2 1 (\<lambda>_. False) (\<lambda>_. 1) (\<lambda>_. 15) (\<lambda>_. 5) 0 (\<lambda>_. 0, counting_prng)) 7 = 0
   \<and> fst (type_ii_clause 4 2 1 (\<lambda>_. False) two_clauses (\<lambda>_. 15) (\<lambda>_. 5) 1 (\<lambda>_. 0, counting_prng)) = (\<lambda>_. 0)
   \<and> counter (\<lambda>_. 0) 0 2 1
       \<le> counter (fst (cb_type_ii_feedback (\<lambda>_. 0) 2 4 2 1 (\<lambda>_. False) two_clauses (\<lambda>_. 15) (\<lambda>_. 5) counting_prng)) 0 2 1
   \<and> \<not> Option.is_none (type_i_clause 4 2 1 (\<lambda>_. False) 0 (\<lambda>_. 1) (\<lambda>_. 15) (\<lambda>_. 5) 0 (\<lambda>_. 3, \<lambda>_. 0, counting_prng))
   \<and> fst (cb_calculate_clause_output_feedback (at_offset (\<lambda>_. 3) (0 * ta_chunks 4 * 2)) (ta_chunks 4) 2
            (tail_filter 4) 1 (\<lambda>_. 15) (\<lambda>_. 5) (snd (fast_rand counting_prng))) = None
   \<and> counter (\<lambda>_. 3) 0 2 1 = 3
   \<and> counter (fst (the (type_i_clause 4 2 1 (\<lambda>_. False) 0 (\<lambda>_. 1) (\<lambda>_. 15) (\<lambda>_. 5) 0
                          (\<lambda>_. 3, \<lambda>_. 0, counting_prng)))) 0 2 1 \<le> 3
   \<and> two_clauses 0 \<noteq> 0 \<and> two_clauses 1 = 0
   \<and> counter (fst (cb_type_ii_feedback (\<lambda>_. 0) 2 4 2 1 (\<lambda>_. False) two_clauses (\<lambda>_. 15) (\<lambda>_. 5) counting_prng)) 0 2 1 = 1
   \<and> counter (fst (cb_type_ii_feedback (\<lambda>_. 0) 2 4 2 1 (\<lambda>_. False) two_clauses (\<lambda>_. 15) (\<lambda>_. 5) counting_prng)) 0 2 0 = 0
   \<and> counter (fst (cb_type_ii_feedback (\<lambda>_. 0) 2 4 2 1 (\<lambda>_. False) two_clauses (\<lambda>_. 15) (\<lambda>_. 5) counting_prng)) 2 2 1 = 0
   \<and> fst (cb_type_ii_feedback (\<lambda>_. 0) 2 4 2 1 (\<lambda>_. False) two_clauses (\<lambda>_. 15) (\<lambda>_. 5) counting_prng) 7 = 0"
proof -
  let ?r = "cb_calculate_clause_output_feedback (at_offset (\<lambda>_. 0) (0 * ta_chunks 4 * 2)) (ta_chunks 4) 2
            (tail_filter 4) 1 (\<lambda>_. 15) (\<lambda>_. 5) (snd (fast_rand counting_prng))"
  have a: "\<not> (\<lambda>_. False) (fst (fast_rand counting_prng))" "(\<lambda>_. 1 :: u32) 0 \<noteq> 0" by simp_all
  have k: "ta_chunks 4 = 1" by (simp add: ta_chunks_def)
  have r: "fst ?r = Some 0" by code_simp
  then have r': "?r = (Some 0, snd ?r)" by (metis prod.collapse)
  have b: "bit ((15::u32) AND NOT 5 AND NOT 0) 1" "\<not> bit ((15::u32) AND NOT 5 AND NOT 0) 0"
    "counter (\<lambda>_. 0) 0 2 1 = 0" "counter (\<lambda>_. 0) 0 2 0 = 0" "counter (\<lambda>_. 3) 0 2 1 = 3"
    by code_simp+
  have n: "\<not> Option.is_none (type_i_clause 4 2 1 (\<lambda>_. False) 0 (\<lambda>_. 1) (\<lambda>_. 15) (\<lambda>_. 5) 0 (\<lambda>_. 3, \<lambda>_. 0, counting_prng))"
    by code_simp
  then obtain s' where e: "type_i_clause 4 2 1 (\<lambda>_. False) 0 (\<lambda>_. 1) (\<lambda>_. 15) (\<lambda>_. 5) 0 (\<lambda>_. 3, \<lambda>_. 0, counting_prng) = Some s'"
    by (auto simp: Option.is_none_def)
  have rn: "fst (cb_calculate_clause_output_feedback (at_offset (\<lambda>_. 3) (0 * ta_chunks 4 * 2)) (ta_chunks 4) 2
            (tail_filter 4) 1 (\<lambda>_. 15) (\<lambda>_. 5) (snd (fast_rand counting_prng))) = None" by code_simp
  note t = type_ii_only_increments[where F=4 and nsb=2 and P=1 and ex="\<lambda>_. False" and L="\<lambda>_. 15"
             and Xi="\<lambda>_. 5" and g=counting_prng]
  note t0 = t[where ta="\<lambda>_. 0" and clause_active="\<lambda>_. 1" and j=0]
  have 1: "counter (fst (type_ii_clause 4 2 1 (\<lambda>_. False) (\<lambda>_. 1) (\<lambda>_. 15) (\<lambda>_. 5) 0 (\<lambda>_. 0, counting_prng))) 0 2 1 = 1"
    using t0[THEN conjunct1, rule_format, OF a r', of 0 1] b by (simp add: k)
  have 2: "counter (fst (type_ii_clause 4 2 1 (\<lambda>_. False) (\<lambda>_. 1) (\<lambda>_. 15) (\<lambda>_. 5) 0 (\<lambda>_. 0, counting_prng))) 0 2 0 = 0"
    using t0[THEN conjunct1, rule_format, OF a r', of 0 0] b by (simp add: k)
  have 3: "fst (type_ii_clause 4 2 1 (\<lambda>_. False) (\<lambda>_. 1) (\<lambda>_. 15) (\<lambda>_. 5) 0 (\<lambda>_. 0, counting_prng)) 7 = 0"
    using t0[THEN conjunct2, THEN conjunct1, rule_format, of 7] by (simp add: k)
  have 4: "fst (type_ii_clause 4 2 1 (\<lambda>_. False) two_clauses (\<lambda>_. 15) (\<lambda>_. 5) 1 (\<lambda>_. 0, counting_prng)) = (\<lambda>_. 0)"
    using t[where ta="\<lambda>_. 0" and clause_active=two_clauses and j=1, THEN conjunct2, THEN conjunct2, THEN conjunct1]
    by (simp add: two_clauses_def)
  have 5: "counter (\<lambda>_. 0) 0 2 1
       \<le> counter (fst (cb_type_ii_feedback (\<lambda>_. 0) 2 4 2 1 (\<lambda>_. False) two_clauses (\<lambda>_. 15) (\<lambda>_. 5) counting_prng)) 0 2 1"
    using t[where ta="\<lambda>_. 0" and clause_active=two_clauses and C=2, THEN conjunct2, THEN conjunct2, THEN conjunct2,
            THEN conjunct1, rule_format, of 0 1 0]
    by (simp add: k)
  have 6: "counter (fst s') 0 2 1 \<le> 3"
    using t[where ta="\<lambda>_. 3" and clause_active="\<lambda>_. 1" and j=0 and fb="\<lambda>_. 0" and boost=0,
            THEN conjunct2, THEN conjunct2, THEN conjunct2, THEN conjunct2, THEN conjunct1,
            rule_format, OF e rn, of 0 1 0] b
    by (simp add: k)
  let ?call = "cb_type_ii_feedback (\<lambda>_. 0) 2 4 2 1 (\<lambda>_. False) two_clauses (\<lambda>_. 15) (\<lambda>_. 5) counting_prng"
  let ?R = "\<lambda>j' k i. (let u = fast_rand (snd (cb_type_ii_feedback (\<lambda>_. 0) j' 4 2 1 (\<lambda>_. False) two_clauses
                                               (\<lambda>_. 15) (\<lambda>_. 5) counting_prng))
                 in if (\<lambda>_. False) (fst u) \<or> two_clauses j' = 0
                    then counter (\<lambda>_. 0) (j' * ta_chunks 4 * 2 + k * 2) 2 i
                    else case fst (cb_calculate_clause_output_feedback (at_offset (\<lambda>_. 0) (j' * ta_chunks 4 * 2))
                                     (ta_chunks 4) 2 (tail_filter 4) 1 (\<lambda>_. 15) (\<lambda>_. 5) (snd u)) of
                           None \<Rightarrow> counter (\<lambda>_. 0) (j' * ta_chunks 4 * 2 + k * 2) 2 i
                         | Some p \<Rightarrow>
                             if bit ((\<lambda>_. 15 :: u32) k AND NOT ((\<lambda>_. 5 :: u32) (p * ta_chunks 4 + k))
                                       AND NOT ((\<lambda>_. 0 :: u32) (j' * ta_chunks 4 * 2 + k * 2 + 2 - 1))) i
                             then min (counter (\<lambda>_. 0) (j' * ta_chunks 4 * 2 + k * 2) 2 i + 1) (2 ^ 2 - 1)
                             else counter (\<lambda>_. 0) (j' * ta_chunks 4 * 2 + k * 2) 2 i)"
  note w = t[where ta="\<lambda>_. 0" and clause_active=two_clauses and C=2, THEN conjunct2, THEN conjunct2, THEN conjunct2,
             THEN conjunct2, THEN conjunct2]
  have c: "two_clauses 0 \<noteq> 0" "two_clauses 1 = 0" by (simp_all add: two_clauses_def)
  have v: "?R 0 0 1 = 1" "?R 0 0 0 = 0" "?R 1 0 1 = 0" by code_simp+
  have "counter (fst ?call) (0 * ta_chunks 4 * 2 + 0 * 2) 2 1 = ?R 0 0 1"
    by (rule w[THEN conjunct1, rule_format, of 0 0 1]) (simp_all add: k)
  with v(1) have 7: "counter (fst ?call) 0 2 1 = 1" by simp
  have "counter (fst ?call) (0 * ta_chunks 4 * 2 + 0 * 2) 2 0 = ?R 0 0 0"
    by (rule w[THEN conjunct1, rule_format, of 0 0 0]) (simp_all add: k)
  with v(2) have 8: "counter (fst ?call) 0 2 0 = 0" by simp
  have "counter (fst ?call) (1 * ta_chunks 4 * 2 + 0 * 2) 2 1 = ?R 1 0 1"
    by (rule w[THEN conjunct1, rule_format, of 1 0 1]) (simp_all add: k)
  with v(3) have 9: "counter (fst ?call) 2 2 1 = 0" by (simp add: k)
  have 10: "fst ?call 7 = 0"
    by (rule w[THEN conjunct2, rule_format, of 7]) (simp add: k)
  from a r b 1 2 3 4 5 6 n rn e c 7 8 9 10 show ?thesis by simp
qed

subsection \<open>Draws of the generator\<close>

text \<open>
  Claim C10. In Type I and Type II feedback the iteration for clause \<open>j\<close> begins with the
  \<^verbatim>\<open>update_p\<close> draw and only then looks at \<open>clause_active[j]\<close>: if the drawn word exceeds
  \<^verbatim>\<open>update_p\<close> or the clause is inactive, the iteration ends with the state unchanged and
  the generator advanced by exactly that one draw. Every iteration consumes at least
  one draw, so a call over \<open>C\<close> clauses consumes at least \<open>C\<close> draws (for Type I: if it
  returns), and with all clauses inactive it returns the state unchanged with exactly
  \<open>C\<close> draws consumed. In Type III an iteration for an inactive clause changes nothing
  and draws nothing, a call with all clauses inactive leaves the generator where it was,
  and an iteration for an active clause ends with the \<^verbatim>\<open>update_p\<close> draw, taken after the
  indicator and ledger steps.
\<close>

theorem update_p_draws:
  shows "(ex (fst (fast_rand g)) \<or> clause_active j = 0 \<longrightarrow>
            type_i_clause F nsb P ex boost clause_active L Xi j (ta, fb, g) = Some (ta, fb, snd (fast_rand g)))
       \<and> (\<forall>s'. type_i_clause F nsb P ex boost clause_active L Xi j (ta, fb, g) = Some s' \<longrightarrow>
              Suc (used g) \<le> used (snd (snd s')))
       \<and> (\<forall>s'. cb_type_i_feedback ta fb C F nsb P ex boost clause_active L Xi g = Some s' \<longrightarrow>
              used g + C \<le> used (snd (snd s')))
       \<and> ((\<forall>j<C. clause_active j = 0) \<longrightarrow>
              cb_type_i_feedback ta fb C F nsb P ex boost clause_active L Xi g
              = Some (ta, fb, g\<lparr>used := used g + C\<rparr>))
       \<and> (ex (fst (fast_rand g)) \<or> clause_active j = 0 \<longrightarrow>
              type_ii_clause F nsb P ex clause_active L Xi j (ta, g) = (ta, snd (fast_rand g)))
       \<and> Suc (used g) \<le> used (snd (type_ii_clause F nsb P ex clause_active L Xi j (ta, g)))
       \<and> used g + C \<le> used (snd (cb_type_ii_feedback ta C F nsb P ex clause_active L Xi g))
       \<and> ((\<forall>j<C. clause_active j = 0) \<longrightarrow>
              cb_type_ii_feedback ta C F nsb P ex clause_active L Xi g = (ta, g\<lparr>used := used g + C\<rparr>))
       \<and> (clause_active j = 0 \<longrightarrow>
              type_iii_clause F nsb nsbi P ex wd clause_active L Xi target j (ta, ind, cat, g) = (ta, ind, cat, g))
       \<and> (clause_active j \<noteq> 0 \<longrightarrow>
              snd (snd (snd (type_iii_clause F nsb nsbi P ex wd clause_active L Xi target j (ta, ind, cat, g))))
              = snd (fast_rand (snd (snd (type_iii_ledger F nsb nsbi P wd L Xi target j ta (ind, cat, g)))))
            \<and> Suc (used g)
              \<le> used (snd (snd (snd (type_iii_clause F nsb nsbi P ex wd clause_active L Xi target j
                                        (ta, ind, cat, g))))))
       \<and> ((\<forall>j<C. clause_active j = 0) \<longrightarrow>
              cb_type_iii_feedback ta ind cat C F nsb nsbi P ex wd clause_active L Xi target g
              = (ta, ind, cat, g))"
proof -
  have 1: "ex (fst (fast_rand g)) \<or> clause_active j = 0 \<longrightarrow>
            type_i_clause F nsb P ex boost clause_active L Xi j (ta, fb, g) = Some (ta, fb, snd (fast_rand g))"
    by (auto simp: type_i_clause_eq)
  have 2: "\<forall>s'. type_i_clause F nsb P ex boost clause_active L Xi j (ta, fb, g) = Some s' \<longrightarrow>
              Suc (used g) \<le> used (snd (snd s'))"
  proof (intro allI impI)
    fix s' :: "store \<times> store \<times> prng"
    assume e: "type_i_clause F nsb P ex boost clause_active L Xi j (ta, fb, g) = Some s'"
    obtain t1 f1 g1 where s: "s' = (t1, f1, g1)" by (cases s') auto
    from type_i_clause_used[OF e[unfolded s]] show "Suc (used g) \<le> used (snd (snd s'))" by (simp add: s)
  qed
  have 3: "\<forall>s'. cb_type_i_feedback ta fb C F nsb P ex boost clause_active L Xi g = Some s' \<longrightarrow>
              used g + C \<le> used (snd (snd s'))"
  proof (intro allI impI)
    fix s' :: "store \<times> store \<times> prng"
    assume e: "cb_type_i_feedback ta fb C F nsb P ex boost clause_active L Xi g = Some s'"
    obtain t1 f1 g1 where s: "s' = (t1, f1, g1)" by (cases s') auto
    from type_i_clauses_used[OF e[unfolded s cb_type_i_feedback_def]]
    show "used g + C \<le> used (snd (snd s'))" by (simp add: s)
  qed
  have 4: "(\<forall>j<C. clause_active j = 0) \<longrightarrow>
              cb_type_i_feedback ta fb C F nsb P ex boost clause_active L Xi g
              = Some (ta, fb, g\<lparr>used := used g + C\<rparr>)"
    unfolding cb_type_i_feedback_def
    using type_i_clauses_all_inactive[of "[0..<C]" clause_active F nsb P ex boost L Xi ta fb g] by simp
  have 5: "ex (fst (fast_rand g)) \<or> clause_active j = 0 \<longrightarrow>
              type_ii_clause F nsb P ex clause_active L Xi j (ta, g) = (ta, snd (fast_rand g))"
    by (auto simp: type_ii_clause_eq)
  have 6: "Suc (used g) \<le> used (snd (type_ii_clause F nsb P ex clause_active L Xi j (ta, g)))"
    using type_ii_clause_used by blast
  have 7: "used g + C \<le> used (snd (cb_type_ii_feedback ta C F nsb P ex clause_active L Xi g))"
    unfolding cb_type_ii_feedback_def
    using type_ii_clauses_used[of g "[0..<C]" F nsb P ex clause_active L Xi ta] by simp
  have 8: "(\<forall>j<C. clause_active j = 0) \<longrightarrow>
              cb_type_ii_feedback ta C F nsb P ex clause_active L Xi g = (ta, g\<lparr>used := used g + C\<rparr>)"
    unfolding cb_type_ii_feedback_def
    using type_ii_clauses_all_inactive[of "[0..<C]" clause_active F nsb P ex L Xi ta g] by simp
  have 9: "clause_active j = 0 \<longrightarrow>
              type_iii_clause F nsb nsbi P ex wd clause_active L Xi target j (ta, ind, cat, g) = (ta, ind, cat, g)"
    by (simp add: type_iii_clause_inactive)
  have 10: "clause_active j \<noteq> 0 \<longrightarrow>
              snd (snd (snd (type_iii_clause F nsb nsbi P ex wd clause_active L Xi target j (ta, ind, cat, g))))
              = snd (fast_rand (snd (snd (type_iii_ledger F nsb nsbi P wd L Xi target j ta (ind, cat, g)))))
            \<and> Suc (used g)
              \<le> used (snd (snd (snd (type_iii_clause F nsb nsbi P ex wd clause_active L Xi target j
                                        (ta, ind, cat, g)))))"
  proof
    assume a: "clause_active j \<noteq> 0"
    obtain i2 c2 g3 where l: "type_iii_ledger F nsb nsbi P wd L Xi target j ta (ind, cat, g) = (i2, c2, g3)"
      by (cases "type_iii_ledger F nsb nsbi P wd L Xi target j ta (ind, cat, g)") auto
    obtain t4 i4 c4 g4 where r: "type_iii_clause F nsb nsbi P ex wd clause_active L Xi target j (ta, ind, cat, g)
        = (t4, i4, c4, g4)"
      by (cases "type_iii_clause F nsb nsbi P ex wd clause_active L Xi target j (ta, ind, cat, g)") auto
    from r have "g4 = snd (fast_rand g3)"
      unfolding type_iii_clause_active[where ca=clause_active and ex=ex, OF a l] by simp
    with type_iii_clause_frames(5)[where ca=clause_active and j=j, OF r a]
    show "snd (snd (snd (type_iii_clause F nsb nsbi P ex wd clause_active L Xi target j (ta, ind, cat, g))))
              = snd (fast_rand (snd (snd (type_iii_ledger F nsb nsbi P wd L Xi target j ta (ind, cat, g)))))
            \<and> Suc (used g)
              \<le> used (snd (snd (snd (type_iii_clause F nsb nsbi P ex wd clause_active L Xi target j
                                        (ta, ind, cat, g)))))"
      by (simp add: r l)
  qed
  have 11: "(\<forall>j<C. clause_active j = 0) \<longrightarrow>
              cb_type_iii_feedback ta ind cat C F nsb nsbi P ex wd clause_active L Xi target g
              = (ta, ind, cat, g)"
    unfolding cb_type_iii_feedback_def
    using type_iii_clauses_all_inactive[of "[0..<C]" clause_active F nsb nsbi P ex wd L Xi target "(ta, ind, cat, g)"]
    by simp
  from 1 2 3 4 5 6 7 8 9 10 11 show ?thesis by blast
qed


theorem update_p_draws_witness:
  "two_clauses 1 = 0 \<and> list_all (\<lambda>j. (\<lambda>_. 0 :: u32) j = 0) [0..<3] \<and> (\<lambda>_. 1 :: u32) 0 \<noteq> 0
   \<and> used counting_prng = 0
   \<and> used (snd (snd (the (type_i_clause 4 2 1 (\<lambda>_. False) 0 two_clauses (\<lambda>_. 15) (\<lambda>_. 5) 1
                              (\<lambda>_. 0, \<lambda>_. 0, counting_prng))))) = 1
   \<and> \<not> Option.is_none (cb_type_i_feedback (\<lambda>_. 0) (\<lambda>_. 0) 2 4 2 1 (\<lambda>_. False) 0 two_clauses (\<lambda>_. 15) (\<lambda>_. 5)
                           counting_prng)
   \<and> 2 \<le> used (snd (snd (the (cb_type_i_feedback (\<lambda>_. 0) (\<lambda>_. 0) 2 4 2 1 (\<lambda>_. False) 0 two_clauses (\<lambda>_. 15)
                                   (\<lambda>_. 5) counting_prng))))
   \<and> used (snd (snd (the (cb_type_i_feedback (\<lambda>_. 0) (\<lambda>_. 0) 3 4 2 1 (\<lambda>_. False) 0 (\<lambda>_. 0) (\<lambda>_. 15) (\<lambda>_. 5)
                              counting_prng)))) = 3
   \<and> used (snd (type_ii_clause 4 2 1 (\<lambda>_. False) two_clauses (\<lambda>_. 15) (\<lambda>_. 5) 1 (\<lambda>_. 0, counting_prng))) = 1
   \<and> 2 \<le> used (snd (cb_type_ii_feedback (\<lambda>_. 0) 2 4 2 1 (\<lambda>_. False) two_clauses (\<lambda>_. 15) (\<lambda>_. 5) counting_prng))
   \<and> used (snd (cb_type_ii_feedback (\<lambda>_. 0) 3 4 2 1 (\<lambda>_. False) (\<lambda>_. 0) (\<lambda>_. 15) (\<lambda>_. 5) counting_prng)) = 3
   \<and> used (snd (snd (snd (type_iii_clause 4 2 2 1 (\<lambda>_. False) (\<lambda>_. True) two_clauses (\<lambda>_. 15) (\<lambda>_. 5) 1 1
                              (\<lambda>_. 1, \<lambda>_. 0, \<lambda>_. 0, counting_prng))))) = 0
   \<and> 1 \<le> used (snd (snd (snd (type_iii_clause 4 2 2 1 (\<lambda>_. False) (\<lambda>_. True) (\<lambda>_. 1) (\<lambda>_. 15) (\<lambda>_. 5) 1 0
                                   (\<lambda>_. 1, \<lambda>_. 0, \<lambda>_. 0, counting_prng)))))
   \<and> used (snd (snd (snd (cb_type_iii_feedback (\<lambda>_. 1) (\<lambda>_. 0) (\<lambda>_. 0) 3 4 2 2 1 (\<lambda>_. False) (\<lambda>_. True)
                              (\<lambda>_. 0) (\<lambda>_. 15) (\<lambda>_. 5) 1 counting_prng)))) = 0"
proof -
  have h: "two_clauses 1 = 0" by (simp add: two_clauses_def)
  have z: "\<forall>j<3. (\<lambda>_. 0 :: u32) j = 0" by simp
  have zl: "list_all (\<lambda>j. (\<lambda>_. 0 :: u32) j = 0) [0..<3]" by (simp add: list_all_iff)
  have o: "(\<lambda>_. 1 :: u32) 0 \<noteq> 0" by simp
  have u: "used counting_prng = 0" by (simp add: counting_prng_def)
  have n: "\<not> Option.is_none (cb_type_i_feedback (\<lambda>_. 0) (\<lambda>_. 0) 2 4 2 1 (\<lambda>_. False) 0 two_clauses (\<lambda>_. 15) (\<lambda>_. 5)
                           counting_prng)"
    by code_simp
  then obtain s' where e: "cb_type_i_feedback (\<lambda>_. 0) (\<lambda>_. 0) 2 4 2 1 (\<lambda>_. False) 0 two_clauses (\<lambda>_. 15) (\<lambda>_. 5)
                           counting_prng = Some s'"
    by (auto simp: Option.is_none_def)
  note t = update_p_draws[where F=4 and nsb=2 and P=1 and ex="\<lambda>_. False" and L="\<lambda>_. 15" and Xi="\<lambda>_. 5"
             and g=counting_prng and boost=0 and fb="\<lambda>_. 0" and nsbi=2 and wd="\<lambda>_. True" and target=1
             and ind="\<lambda>_. 0" and cat="\<lambda>_. 0"]
  note t1 = t[where clause_active=two_clauses and j=1 and C=2 and ta="\<lambda>_. 0"]
  note t0 = t[where clause_active="\<lambda>_. 0" and C=3 and ta="\<lambda>_. 0"]
  have 1: "used (snd (snd (the (type_i_clause 4 2 1 (\<lambda>_. False) 0 two_clauses (\<lambda>_. 15) (\<lambda>_. 5) 1
                              (\<lambda>_. 0, \<lambda>_. 0, counting_prng))))) = 1"
    using t1[THEN conjunct1] h u by (simp add: fast_rand_def)
  have 2: "2 \<le> used (snd (snd s'))"
    using t1[THEN conjunct2, THEN conjunct2, THEN conjunct1, rule_format, OF e] u by simp
  have 3: "used (snd (snd (the (cb_type_i_feedback (\<lambda>_. 0) (\<lambda>_. 0) 3 4 2 1 (\<lambda>_. False) 0 (\<lambda>_. 0) (\<lambda>_. 15) (\<lambda>_. 5)
                              counting_prng)))) = 3"
    using t0[THEN conjunct2, THEN conjunct2, THEN conjunct2, THEN conjunct1] z u by simp
  have 4: "used (snd (type_ii_clause 4 2 1 (\<lambda>_. False) two_clauses (\<lambda>_. 15) (\<lambda>_. 5) 1 (\<lambda>_. 0, counting_prng))) = 1"
    using t1[THEN conjunct2, THEN conjunct2, THEN conjunct2, THEN conjunct2, THEN conjunct1] h u
    by (simp add: fast_rand_def)
  have 5: "2 \<le> used (snd (cb_type_ii_feedback (\<lambda>_. 0) 2 4 2 1 (\<lambda>_. False) two_clauses (\<lambda>_. 15) (\<lambda>_. 5) counting_prng))"
    using t1[THEN conjunct2, THEN conjunct2, THEN conjunct2, THEN conjunct2, THEN conjunct2, THEN conjunct2,
             THEN conjunct1] u by simp
  have 6: "used (snd (cb_type_ii_feedback (\<lambda>_. 0) 3 4 2 1 (\<lambda>_. False) (\<lambda>_. 0) (\<lambda>_. 15) (\<lambda>_. 5) counting_prng)) = 3"
    using t0[THEN conjunct2, THEN conjunct2, THEN conjunct2, THEN conjunct2, THEN conjunct2, THEN conjunct2,
             THEN conjunct2, THEN conjunct1] z u by simp
  have 7: "used (snd (snd (snd (type_iii_clause 4 2 2 1 (\<lambda>_. False) (\<lambda>_. True) two_clauses (\<lambda>_. 15) (\<lambda>_. 5) 1 1
                              (\<lambda>_. 1, \<lambda>_. 0, \<lambda>_. 0, counting_prng))))) = 0"
    using t[where clause_active=two_clauses and j=1 and ta="\<lambda>_. 1", THEN conjunct2, THEN conjunct2, THEN conjunct2,
            THEN conjunct2, THEN conjunct2, THEN conjunct2, THEN conjunct2, THEN conjunct2, THEN conjunct1] h u
    by simp
  have 8: "1 \<le> used (snd (snd (snd (type_iii_clause 4 2 2 1 (\<lambda>_. False) (\<lambda>_. True) (\<lambda>_. 1) (\<lambda>_. 15) (\<lambda>_. 5) 1 0
                                   (\<lambda>_. 1, \<lambda>_. 0, \<lambda>_. 0, counting_prng)))))"
    using t[where clause_active="\<lambda>_. 1" and j=0 and ta="\<lambda>_. 1", THEN conjunct2, THEN conjunct2, THEN conjunct2,
            THEN conjunct2, THEN conjunct2, THEN conjunct2, THEN conjunct2, THEN conjunct2, THEN conjunct2,
            THEN conjunct1, rule_format, OF o, THEN conjunct2] u
    by simp
  have 9: "used (snd (snd (snd (cb_type_iii_feedback (\<lambda>_. 1) (\<lambda>_. 0) (\<lambda>_. 0) 3 4 2 2 1 (\<lambda>_. False) (\<lambda>_. True)
                              (\<lambda>_. 0) (\<lambda>_. 15) (\<lambda>_. 5) 1 counting_prng)))) = 0"
    using t[where clause_active="\<lambda>_. 0" and C=3 and ta="\<lambda>_. 1", THEN conjunct2, THEN conjunct2, THEN conjunct2,
            THEN conjunct2, THEN conjunct2, THEN conjunct2, THEN conjunct2, THEN conjunct2, THEN conjunct2,
            THEN conjunct2] z u
    by simp
  from h zl o u 1 n 2 3 4 5 6 7 8 9 e show ?thesis by simp
qed

subsection \<open>The result of the search\<close>

text \<open>
  Claim C2, refuted as stated. First input: \<open>F = 36\<close>, two patches, one state bit, every
  literal selected by \<open>literal_active\<close>. Patch 0 has exactly one offending bit (literal 0),
  patch 1 has three (literals 0, 1 and 2, all in chunk 0). The search does not return the
  value \<open>-1\<close> that stands for no result: it passes over patch 1 and returns 0. Second input:
  \<open>F = 4\<close>, two patches; patch 0 has one offending bit (literal 0) and patch 1 has two. The
  search returns 0 again.
\<close>

theorem multi_offending_patch_is_skipped:
  "ta_chunks 36 = 2 \<and> tail_filter 36 = 15
   \<and> offending_count two_chunk_actions (ta_chunks 36) 1 (tail_filter 36) (\<lambda>_. - 1) six_patches 0 = 1
   \<and> offending_count two_chunk_actions (ta_chunks 36) 1 (tail_filter 36) (\<lambda>_. - 1) six_patches 1 = 3
   \<and> fst (cb_calculate_clause_output_single_false_literal two_chunk_actions (ta_chunks 36) 1 (tail_filter 36) 2
             (\<lambda>_. - 1) six_patches counting_prng) = 0
   \<and> ta_chunks 4 = 1 \<and> tail_filter 4 = 15
   \<and> offending_count (\<lambda>_. 15) (ta_chunks 4) 1 (tail_filter 4) (\<lambda>_. - 1) (\<lambda>a. if a = 0 then 14 else 12) 0 = 1
   \<and> offending_count (\<lambda>_. 15) (ta_chunks 4) 1 (tail_filter 4) (\<lambda>_. - 1) (\<lambda>a. if a = 0 then 14 else 12) 1 = 2
   \<and> fst (cb_calculate_clause_output_single_false_literal (\<lambda>_. 15) (ta_chunks 4) 1 (tail_filter 4) 2
             (\<lambda>_. - 1) (\<lambda>a. if a = 0 then 14 else 12) counting_prng) = 0"
  by code_simp

text \<open>
  Claim C2, amended. Let \<open>F > 0\<close>. The patches are scanned in order, and the scan ends at
  the first patch for which \<open>tail_break\<close> holds, that is, where the last chunk brings a
  second offending bit. Among the patches scanned before that one, those with exactly one
  offending bit in their stripe are the candidates; patches with more, or with none, are
  passed over. If there is no candidate the search returns \<open>-1\<close> and draws nothing.
  Otherwise it takes the next draw \<open>r\<close> of the generator and chooses the candidate patch
  of index \<open>r mod n\<close> among the \<open>n\<close> candidates; the value returned is not negative, agrees
  modulo 32 with the index of the offending literal of that patch, and is that index
  whenever the literal is one of the first 32. For every patch with exactly one offending
  bit the index of the offending literal is below \<open>F\<close> and names the one bit set in the
  stripe. In all cases the result is \<open>-1\<close> or lies in \<open>[0, F)\<close>.
\<close>

theorem single_offending_literal_search:
  assumes "0 < F"
  shows "(let sel = filter (\<lambda>p. offending_count ta (ta_chunks F) nsb (tail_filter F) L Xi p = 1)
                      (takeWhile (\<lambda>p. \<not> tail_break ta (ta_chunks F) nsb (tail_filter F) L Xi p) [0..<P]);
              res = cb_calculate_clause_output_single_false_literal ta (ta_chunks F) nsb (tail_filter F) P L Xi g
          in if sel = [] then res = (- 1, g)
             else snd res = snd (fast_rand g) \<and> 0 \<le> fst res
                  \<and> nat (fst res) mod 32
                      = offending_literal ta (ta_chunks F) nsb (tail_filter F) L Xi (sel ! (unat (fst (fast_rand g)) mod length sel)) mod 32
                  \<and> (offending_literal ta (ta_chunks F) nsb (tail_filter F) L Xi (sel ! (unat (fst (fast_rand g)) mod length sel)) < 32 \<longrightarrow>
                       fst res = int (offending_literal ta (ta_chunks F) nsb (tail_filter F) L Xi (sel ! (unat (fst (fast_rand g)) mod length sel)))))
       \<and> (\<forall>p. offending_count ta (ta_chunks F) nsb (tail_filter F) L Xi p = 1 \<longrightarrow>
               offending_literal ta (ta_chunks F) nsb (tail_filter F) L Xi p < F
               \<and> offending_literal ta (ta_chunks F) nsb (tail_filter F) L Xi p div 32 < ta_chunks F
               \<and> offending_word ta (ta_chunks F) nsb (tail_filter F) L Xi p (offending_literal ta (ta_chunks F) nsb (tail_filter F) L Xi p div 32) = 2 ^ (offending_literal ta (ta_chunks F) nsb (tail_filter F) L Xi p mod 32))
       \<and> (fst (cb_calculate_clause_output_single_false_literal ta (ta_chunks F) nsb (tail_filter F) P L Xi g) = - 1
          \<or> (0 \<le> fst (cb_calculate_clause_output_single_false_literal ta (ta_chunks F) nsb (tail_filter F) P L Xi g)
             \<and> fst (cb_calculate_clause_output_single_false_literal ta (ta_chunks F) nsb (tail_filter F) P L Xi g) < int F))"
proof (intro conjI allI impI)
  show "let sel = filter (\<lambda>p. offending_count ta (ta_chunks F) nsb (tail_filter F) L Xi p = 1)
                      (takeWhile (\<lambda>p. \<not> tail_break ta (ta_chunks F) nsb (tail_filter F) L Xi p) [0..<P]);
              res = cb_calculate_clause_output_single_false_literal ta (ta_chunks F) nsb (tail_filter F) P L Xi g
          in if sel = [] then res = (- 1, g)
             else snd res = snd (fast_rand g) \<and> 0 \<le> fst res
                  \<and> nat (fst res) mod 32
                      = offending_literal ta (ta_chunks F) nsb (tail_filter F) L Xi (sel ! (unat (fst (fast_rand g)) mod length sel)) mod 32
                  \<and> (offending_literal ta (ta_chunks F) nsb (tail_filter F) L Xi (sel ! (unat (fst (fast_rand g)) mod length sel)) < 32 \<longrightarrow>
                       fst res = int (offending_literal ta (ta_chunks F) nsb (tail_filter F) L Xi (sel ! (unat (fst (fast_rand g)) mod length sel))))"
    unfolding single_false_literal_exact[OF ta_chunks_pos] by (simp add: Let_def)
next
  fix p
  assume c: "offending_count ta (ta_chunks F) nsb (tail_filter F) L Xi p = 1"
  from offending_literal_range[OF assms c]
  show "offending_literal ta (ta_chunks F) nsb (tail_filter F) L Xi p < F" .
  from offending_literal_bit[OF c]
  show "offending_literal ta (ta_chunks F) nsb (tail_filter F) L Xi p div 32 < ta_chunks F"
    and "offending_word ta (ta_chunks F) nsb (tail_filter F) L Xi p (offending_literal ta (ta_chunks F) nsb (tail_filter F) L Xi p div 32) = 2 ^ (offending_literal ta (ta_chunks F) nsb (tail_filter F) L Xi p mod 32)"
    by simp_all
next
  from single_false_literal_in_features[OF assms, of ta nsb P L Xi g]
  show "fst (cb_calculate_clause_output_single_false_literal ta (ta_chunks F) nsb (tail_filter F) P L Xi g) = - 1
          \<or> (0 \<le> fst (cb_calculate_clause_output_single_false_literal ta (ta_chunks F) nsb (tail_filter F) P L Xi g)
             \<and> fst (cb_calculate_clause_output_single_false_literal ta (ta_chunks F) nsb (tail_filter F) P L Xi g) < int F)" .
qed

theorem single_offending_literal_search_witness:
  "(0::nat) < 36
   \<and> filter (\<lambda>p. offending_count two_chunk_actions (ta_chunks 36) 1 (tail_filter 36) (\<lambda>_. - 1) six_patches p = 1) (takeWhile (\<lambda>p. \<not> tail_break two_chunk_actions (ta_chunks 36) 1 (tail_filter 36) (\<lambda>_. - 1) six_patches p) [0..<6]) = [0, 2, 3]
   \<and> offending_count two_chunk_actions (ta_chunks 36) 1 (tail_filter 36) (\<lambda>_. - 1) six_patches 1 = 3
   \<and> tail_break two_chunk_actions (ta_chunks 36) 1 (tail_filter 36) (\<lambda>_. - 1) six_patches 4
   \<and> unat (fst (fast_rand (snd (fast_rand counting_prng)))) = 1
   \<and> offending_literal two_chunk_actions (ta_chunks 36) 1 (tail_filter 36) (\<lambda>_. - 1) six_patches 2 = 1
   \<and> cb_calculate_clause_output_single_false_literal two_chunk_actions (ta_chunks 36) 1 (tail_filter 36) 6
         (\<lambda>_. - 1) six_patches (snd (fast_rand counting_prng))
       = (1, snd (fast_rand (snd (fast_rand counting_prng))))
   \<and> offending_count two_chunk_actions (ta_chunks 36) 1 (tail_filter 36) (\<lambda>_. - 1) six_patches 3 = 1
   \<and> offending_literal two_chunk_actions (ta_chunks 36) 1 (tail_filter 36) (\<lambda>_. - 1) six_patches 3 = 34
   \<and> offending_word two_chunk_actions (ta_chunks 36) 1 (tail_filter 36) (\<lambda>_. - 1) six_patches 3 (34 div 32) = 2 ^ (34 mod 32)"
proof -
  let ?res = "cb_calculate_clause_output_single_false_literal two_chunk_actions (ta_chunks 36) 1 (tail_filter 36) 6
         (\<lambda>_. - 1) six_patches (snd (fast_rand counting_prng))"
  have F: "(0::nat) < 36" by simp
  have sel: "filter (\<lambda>p. offending_count two_chunk_actions (ta_chunks 36) 1 (tail_filter 36) (\<lambda>_. - 1) six_patches p = 1) (takeWhile (\<lambda>p. \<not> tail_break two_chunk_actions (ta_chunks 36) 1 (tail_filter 36) (\<lambda>_. - 1) six_patches p) [0..<6]) = [0, 2, 3]"
    by code_simp
  have c1: "offending_count two_chunk_actions (ta_chunks 36) 1 (tail_filter 36) (\<lambda>_. - 1) six_patches 1 = 3" by code_simp
  have b4: "tail_break two_chunk_actions (ta_chunks 36) 1 (tail_filter 36) (\<lambda>_. - 1) six_patches 4" by code_simp
  have d: "unat (fst (fast_rand (snd (fast_rand counting_prng)))) = 1" by code_simp
  have l2: "offending_literal two_chunk_actions (ta_chunks 36) 1 (tail_filter 36) (\<lambda>_. - 1) six_patches 2 = 1" by code_simp
  have c3: "offending_count two_chunk_actions (ta_chunks 36) 1 (tail_filter 36) (\<lambda>_. - 1) six_patches 3 = 1" by code_simp
  have l3: "offending_literal two_chunk_actions (ta_chunks 36) 1 (tail_filter 36) (\<lambda>_. - 1) six_patches 3 = 34" by code_simp
  note t = single_offending_literal_search[where F=36 and P=6 and ta=two_chunk_actions and nsb=1
             and L="\<lambda>_. - 1" and Xi=six_patches and g="snd (fast_rand counting_prng)", OF F]
  from t[THEN conjunct1]
  have "snd ?res = snd (fast_rand (snd (fast_rand counting_prng))) \<and> fst ?res = 1"
    unfolding sel Let_def d using l2 by simp
  then have r: "?res = (1, snd (fast_rand (snd (fast_rand counting_prng))))"
    by (metis prod.collapse)
  from t[THEN conjunct2, THEN conjunct1, rule_format, OF c3]
  have w: "offending_word two_chunk_actions (ta_chunks 36) 1 (tail_filter 36) (\<lambda>_. - 1) six_patches 3 (34 div 32) = 2 ^ (34 mod 32)"
    unfolding l3 by (rule conjunct2[THEN conjunct2])
  from F sel c1 b4 d l2 r c3 l3 w show ?thesis by (intro conjI)
qed

text \<open>
  When the single offending bit of the chosen patch lies beyond the first chunk, the value
  returned is its position inside the chunk word, not the index of the literal: here the
  only patch falsifies literal 34 alone and the search returns 2.
\<close>

lemma word_position_without_chunk_offset:
  "offending_count two_chunk_actions (ta_chunks 36) 1 (tail_filter 36) (\<lambda>_. - 1) (\<lambda>a. if a = 0 then 7 else 0) 0 = 1
   \<and> offending_literal two_chunk_actions (ta_chunks 36) 1 (tail_filter 36) (\<lambda>_. - 1) (\<lambda>a. if a = 0 then 7 else 0) 0 = 34
   \<and> fst (cb_calculate_clause_output_single_false_literal two_chunk_actions (ta_chunks 36) 1 (tail_filter 36) 1
            (\<lambda>_. - 1) (\<lambda>a. if a = 0 then 7 else 0) counting_prng) = 2"
  by code_simp

end
